theory Spec2Isabelle
  imports Main "HOL-Library.Word"
begin

unbundle bit_operations_syntax

section \<open>The esq8 floppy image format (src/lib/formats/esq8\_dsk.cpp)\<close>

text \<open>
  A shallow embedding of \<^verbatim>\<open>esq8img_format\<close>: the layout descriptor
  \<^verbatim>\<open>esq_6_desc\<close>, the geometry probe \<^verbatim>\<open>find_size\<close>, and the
  operations \<^verbatim>\<open>identify\<close>, \<^verbatim>\<open>load\<close> and \<^verbatim>\<open>save\<close>.
  The C++ \<^verbatim>\<open>int\<close> values of the file (counts, indices, descriptor parameters) stay
  far below \<open>2^31\<close>, so they are HOL integers; \<^verbatim>\<open>uint64_t\<close> is \<open>64 word\<close>
  where the code compares it, and bytes are \<open>8 word\<close>.
\<close>

type_synonym byte = "8 word"
type_synonym u64 = "64 word"

subsection \<open>The layout descriptor\<close>

text \<open>
  \<^verbatim>\<open>floppy_image_format_t::desc_e\<close> is a struct of three ints, \<^verbatim>\<open>{ type, p1, p2 }\<close>;
  the brace initialisers of the table leave the missing members zero. The \<^verbatim>\<open>type\<close>
  member ranges over an enumeration, of which the table uses these thirteen values.
\<close>

datatype field_type =
    MFM | RAW | TRACK_ID | HEAD_ID | SECTOR_ID | SIZE_ID | SECTOR_DATA
  | CRC_CCITT_START | CRC_END | CRC | SECTOR_LOOP_START | SECTOR_LOOP_END | END

record desc_e =
  type_e :: field_type
  p1 :: int
  p2 :: int

definition D3 :: "field_type \<Rightarrow> int \<Rightarrow> int \<Rightarrow> desc_e" where
  "D3 t a b = \<lparr>type_e = t, p1 = a, p2 = b\<rparr>"

definition D2 :: "field_type \<Rightarrow> int \<Rightarrow> desc_e" where
  "D2 t a = D3 t a 0"

definition D1 :: "field_type \<Rightarrow> desc_e" where
  "D1 t = D3 t 0 0"

definition esq_6_desc :: "desc_e list" where
  "esq_6_desc =
   [ D3 MFM 0x4e 80,
     D3 MFM 0x00 12,
     D3 RAW 0x5224 3,
     D3 MFM 0xfc 1,
     D3 MFM 0x4e 50,
     D3 MFM 0x00 12,
     D3 SECTOR_LOOP_START 0 5,
     D2 CRC_CCITT_START 1,
     D3 RAW 0x4489 3,
     D3 MFM 0xfe 1,
     D1 TRACK_ID,
     D1 HEAD_ID,
     D1 SECTOR_ID,
     D1 SIZE_ID,
     D2 CRC_END 1,
     D2 CRC 1,
     D3 MFM 0x4e 22,
     D3 MFM 0x00 12,
     D2 CRC_CCITT_START 2,
     D3 RAW 0x4489 3,
     D3 MFM 0xfb 1,
     D2 SECTOR_DATA (- 1),
     D2 CRC_END 2,
     D2 CRC 2,
     D3 MFM 0x4e 84,
     D3 MFM 0x00 12,
     D1 SECTOR_LOOP_END,
     D3 MFM 0x4e 170,
     D1 END ]"

subsection \<open>The container reader\<close>

text \<open>
  \<^verbatim>\<open>util::random_read\<close> is an abstract interface (ioprocs.h). Its operations return a
  \<^verbatim>\<open>std::error_condition\<close>, which converts to \<^verbatim>\<open>true\<close> exactly when it holds an
  error, and deliver their result through a reference parameter: \<^verbatim>\<open>length(size)\<close>
  stores the length, \<^verbatim>\<open>read_at(offset, buffer, length, actual)\<close> stores up to
  \<^verbatim>\<open>length\<close> bytes and their number. An error condition is its code here, \<open>0\<close>
  for success. A reader is the pair of answers it gives: to the length query, and to a read
  of \<open>n\<close> bytes at an offset (the bytes it delivers; \<^verbatim>\<open>actual\<close> is their number).
\<close>

type_synonym error_condition = nat

record random_read =
  io_length :: "error_condition \<times> u64"
  io_read_at :: "u64 \<Rightarrow> nat \<Rightarrow> error_condition \<times> byte list"

definition failed :: "error_condition \<Rightarrow> bool" where
  "failed ec = (ec \<noteq> 0)"

text \<open>A reader over a byte array held in memory: it never fails, and a read past the end is short.\<close>

definition ram_read :: "byte list \<Rightarrow> random_read" where
  "ram_read bs =
     \<lparr> io_length = (0, of_nat (length bs)),
       io_read_at = (\<lambda>off n. (0, take n (drop (unat off) bs))) \<rparr>"

subsection \<open>find\_size and identify\<close>

text \<open>
  \<^verbatim>\<open>find_size\<close> returns through three \<^verbatim>\<open>int&\<close> parameters; the model returns the
  triple \<open>(track_count, head_count, sector_count)\<close>. The branch is taken when
  \<^verbatim>\<open>!io.length(size)\<close>, that is when the length query reports no error: it is the
  branch that reads \<^verbatim>\<open>size\<close>, which only a successful query has stored.
\<close>

definition find_size :: "random_read \<Rightarrow> int \<times> int \<times> int" where
  "find_size io =
     (let (ec, size) = io_length io in
      if \<not> failed ec then
        (let (track_count, head_count, sector_count) = (80, 1, 6) in
         if size = 5632 * 80 then (track_count, head_count, sector_count)
         else (0, 0, 0))
      else (0, 0, 0))"

definition identify :: "random_read \<Rightarrow> 32 word \<Rightarrow> 32 word list \<Rightarrow> int" where
  "identify io form_factor variants =
     (let (track_count, head_count, sector_count) = find_size io in
      if track_count \<noteq> 0 then 50 else 0)"

subsection \<open>load\<close>

text \<open>
  \<^verbatim>\<open>desc_s\<close> describes one sector to the track generator: its size, a pointer to
  its payload and its sector id. The pointers of \<^verbatim>\<open>load\<close> all point into the local
  array \<^verbatim>\<open>sectdata\<close>, so a pointer is its offset into that array, and the payload a
  sector designates is read from the array when the track is generated.
\<close>

record desc_s =
  size_s :: int
  data_s :: nat
  sector_id :: int

definition sector_payload :: "byte list \<Rightarrow> desc_s \<Rightarrow> byte list" where
  "sector_payload sectdata d = take (nat (size_s d)) (drop (data_s d) sectdata)"

text \<open>
  \<^verbatim>\<open>floppy_image\<close> and the track generator \<^verbatim>\<open>generate_track\<close> are not part of
  this file. \<^verbatim>\<open>load\<close> acts on the image only through
  \<^verbatim>\<open>generate_track(esq_6_desc, track, head, sectors, sector_count, 109376, image)\<close>
  and \<^verbatim>\<open>image->set_variant(floppy_image::DSDD)\<close>, so the image is what these calls
  leave in it: the calls of the generator in order, each with its arguments and with the
  contents of \<^verbatim>\<open>sectdata\<close> at that moment, and the variant.
\<close>

datatype floppy_variant = SSSD | SSDD | SSQD | DSSD | DSDD | DSQD | DSHD | DSED

record track_call =
  g_desc :: "desc_e list"
  g_track :: int
  g_head :: int
  g_sectors :: "desc_s list"
  g_sectdata :: "byte list"
  g_sector_count :: int
  g_cells :: int

record floppy_image =
  generated :: "track_call list"
  variant :: "floppy_variant option"

definition generate_track ::
  "desc_e list \<Rightarrow> int \<Rightarrow> int \<Rightarrow> desc_s list \<Rightarrow> byte list \<Rightarrow> int \<Rightarrow> int \<Rightarrow>
   floppy_image \<Rightarrow> floppy_image" where
  "generate_track desc track head sectors sectdata sector_count cells img =
     img\<lparr>generated := generated img @
       [\<lparr>g_desc = desc, g_track = track, g_head = head, g_sectors = sectors,
         g_sectdata = sectdata, g_sector_count = sector_count, g_cells = cells\<rparr>]\<rparr>"

definition set_variant :: "floppy_variant \<Rightarrow> floppy_image \<Rightarrow> floppy_image" where
  "set_variant v img = img\<lparr>variant := Some v\<rparr>"

text \<open>One call of \<^verbatim>\<open>read_at\<close>: the offset, the number of bytes asked for, and \<^verbatim>\<open>actual\<close>.\<close>

record read_call =
  r_offset :: int
  r_length :: nat
  r_actual :: nat

record load_state =
  sectdata :: "byte list"
  reads :: "read_call list"
  l_image :: floppy_image

text \<open>The first loop of \<^verbatim>\<open>load\<close> (lines 111 to 125) fills \<^verbatim>\<open>sectors\<close>.\<close>

definition load_sector :: "nat \<Rightarrow> desc_s" where
  "load_sector i =
     (if i < 5 then \<lparr>size_s = 1024, data_s = 1024 * i, sector_id = int i\<rparr>
      else \<lparr>size_s = 512, data_s = 5 * 1024, sector_id = int i\<rparr>)"

definition load_sectors :: "int \<Rightarrow> desc_s list" where
  "load_sectors sector_count = map load_sector [0..<nat sector_count]"

definition track_size :: nat where
  "track_size = 5 * 1024 + 512"

text \<open>
  The body of the inner loop (lines 133 to 135). \<^verbatim>\<open>read_at\<close> overwrites the first
  \<^verbatim>\<open>actual\<close> bytes of \<^verbatim>\<open>sectdata\<close> and leaves the rest as it was; its error
  condition and \<^verbatim>\<open>actual\<close> are not looked at.
\<close>

definition load_track ::
  "random_read \<Rightarrow> int \<Rightarrow> desc_s list \<Rightarrow> int \<Rightarrow> int \<Rightarrow> nat \<Rightarrow> load_state \<Rightarrow> load_state" where
  "load_track io head_count sectors sector_count track head st =
     (let offset = (track * head_count + int head) * int track_size;
          (ec, bytes) = io_read_at io (of_int offset) track_size;
          got = take track_size bytes;
          buf = got @ drop (length got) (sectdata st)
      in \<lparr> sectdata = buf,
           reads = reads st @ [\<lparr>r_offset = offset, r_length = track_size, r_actual = length got\<rparr>],
           l_image = generate_track esq_6_desc track (int head) sectors buf sector_count 109376
                       (l_image st) \<rparr>)"

fun load_heads ::
  "random_read \<Rightarrow> int \<Rightarrow> desc_s list \<Rightarrow> int \<Rightarrow> int \<Rightarrow> nat list \<Rightarrow> load_state \<Rightarrow> load_state" where
  "load_heads io head_count sectors sector_count track [] st = st"
| "load_heads io head_count sectors sector_count track (head # heads) st =
     load_heads io head_count sectors sector_count track heads
       (load_track io head_count sectors sector_count track head st)"

fun load_tracks ::
  "random_read \<Rightarrow> int \<Rightarrow> desc_s list \<Rightarrow> int \<Rightarrow> nat list \<Rightarrow> load_state \<Rightarrow> load_state" where
  "load_tracks io head_count sectors sector_count [] st = st"
| "load_tracks io head_count sectors sector_count (track # tracks) st =
     load_tracks io head_count sectors sector_count tracks
       (load_heads io head_count sectors sector_count (int track) [0..<nat head_count] st)"

text \<open>
  \<^verbatim>\<open>load\<close>. The array \<^verbatim>\<open>sectdata\<close> is not initialised: \<open>stack\<close> is what it
  holds on entry. The result is the return value and the final state.
\<close>

definition load ::
  "random_read \<Rightarrow> 32 word \<Rightarrow> 32 word list \<Rightarrow> byte list \<Rightarrow> floppy_image \<Rightarrow> bool \<times> load_state" where
  "load io form_factor variants stack img =
     (let (track_count, head_count, sector_count) = find_size io;
          sectors = load_sectors sector_count;
          st = load_tracks io head_count sectors sector_count [0..<nat track_count]
                 \<lparr>sectdata = stack, reads = [], l_image = img\<rparr>
      in (True, st\<lparr>l_image := set_variant DSDD (l_image st)\<rparr>))"

subsection \<open>save\<close>

text \<open>
  \<^verbatim>\<open>save\<close> reads the image through three functions of \<^verbatim>\<open>floppy_image_format_t\<close>
  that are not part of this file; they are parameters of the model, over any type of image.
  The extracted sectors are a vector of byte vectors, indexed by \<^verbatim>\<open>sectors[sector]\<close>.
\<close>

record 'img floppy_ops =
  get_geometry_mfm_pc :: "'img \<Rightarrow> int \<Rightarrow> int \<times> int \<times> int"
  generate_bitstream_from_track :: "int \<Rightarrow> int \<Rightarrow> int \<Rightarrow> 'img \<Rightarrow> bool list"
  extract_sectors_from_bitstream_mfm_pc :: "bool list \<Rightarrow> byte list list"

text \<open>One call of \<^verbatim>\<open>write_at\<close>: the offset, the bytes and their number.\<close>

record write_call =
  w_offset :: nat
  w_data :: "byte list"
  w_length :: nat

text \<open>
  \<^verbatim>\<open>save\<close> only sends to its writer \<^verbatim>\<open>io\<close>, and looks at none of its answers, so
  the model returns what was sent instead of taking a writer.
  The state of \<^verbatim>\<open>save\<close>: \<^verbatim>\<open>file_offset\<close>, the calls of \<^verbatim>\<open>write_at\<close> so far and
  the messages of \<^verbatim>\<open>osd_printf_error\<close> (track, sector, size). \<^verbatim>\<open>file_offset\<close> is
  a \<^verbatim>\<open>uint64_t\<close> that grows by at most 5632 for each of 80 tracks and fewer than
  \<open>2^31\<close> heads, so it never wraps.
\<close>

record save_state =
  file_offset :: nat
  writes :: "write_call list"
  errors :: "(int \<times> int \<times> nat) list"

text \<open>
  How \<^verbatim>\<open>save\<close> ends: it returns a value, or it indexes the vector of extracted
  sectors past its end, which C++ leaves undefined.
\<close>

datatype outcome = Returns bool | Index_out_of_range

definition sector_expected_size :: "nat \<Rightarrow> nat" where
  "sector_expected_size sector = (if sector < 5 then 1024 else 512)"

text \<open>The loops return \<open>None\<close> when they run to their end, \<open>Some r\<close> when the function ended in them.\<close>

fun save_sectors ::
  "int \<Rightarrow> byte list list \<Rightarrow> nat list \<Rightarrow> save_state \<Rightarrow> save_state \<times> outcome option" where
  "save_sectors track sectors [] st = (st, None)"
| "save_sectors track sectors (sector # rest) st =
     (if length sectors \<le> sector then (st, Some Index_out_of_range)
      else if length (sectors ! sector) \<noteq> sector_expected_size sector then
        (st\<lparr>errors := errors st @ [(track, int sector, length (sectors ! sector))]\<rparr>,
         Some (Returns False))
      else save_sectors track sectors rest
        (st\<lparr>writes := writes st @
              [\<lparr>w_offset = file_offset st, w_data = sectors ! sector,
                w_length = sector_expected_size sector\<rparr>],
            file_offset := file_offset st + sector_expected_size sector\<rparr>))"

fun save_heads ::
  "'img floppy_ops \<Rightarrow> 'img \<Rightarrow> int \<Rightarrow> int \<Rightarrow> nat list \<Rightarrow> save_state \<Rightarrow>
   save_state \<times> outcome option" where
  "save_heads ops img sector_count track [] st = (st, None)"
| "save_heads ops img sector_count track (head # heads) st =
     (let bitstream = generate_bitstream_from_track ops track (int head) 2000 img;
          sectors = extract_sectors_from_bitstream_mfm_pc ops bitstream
      in case save_sectors track sectors [0..<nat sector_count] st of
           (st', Some r) \<Rightarrow> (st', Some r)
         | (st', None) \<Rightarrow> save_heads ops img sector_count track heads st')"

fun save_tracks ::
  "'img floppy_ops \<Rightarrow> 'img \<Rightarrow> int \<Rightarrow> int \<Rightarrow> nat list \<Rightarrow> save_state \<Rightarrow>
   save_state \<times> outcome option" where
  "save_tracks ops img head_count sector_count [] st = (st, None)"
| "save_tracks ops img head_count sector_count (track # tracks) st =
     (case save_heads ops img sector_count (int track) [0..<nat head_count] st of
        (st', Some r) \<Rightarrow> (st', Some r)
      | (st', None) \<Rightarrow> save_tracks ops img head_count sector_count tracks st')"

text \<open>Lines 150 to 158: the geometry the loops run over, from the one the probe reports.\<close>

definition save_geometry :: "int \<times> int \<times> int \<Rightarrow> int \<times> int \<times> int" where
  "save_geometry probed =
     (let (track_count, head_count, sector_count) = probed;
          track_count = (if track_count \<noteq> 80 then 80 else track_count);
          head_count = (if head_count = 0 then 1 else head_count);
          sector_count = (if sector_count \<noteq> 6 then 6 else sector_count)
      in (track_count, head_count, sector_count))"

definition save ::
  "'img floppy_ops \<Rightarrow> 32 word list \<Rightarrow> 'img \<Rightarrow> outcome \<times> save_state" where
  "save ops variants img =
     (let (track_count, head_count, sector_count) =
            save_geometry (get_geometry_mfm_pc ops img 2000)
      in case save_tracks ops img head_count sector_count [0..<nat track_count]
                \<lparr>file_offset = 0, writes = [], errors = []\<rparr> of
           (st, Some r) \<Rightarrow> (r, st)
         | (st, None) \<Rightarrow> (Returns True, st))"

subsection \<open>Reading the descriptor\<close>

text \<open>
  What the well-formedness of a descriptor is made of: how often an instruction type occurs,
  the instructions between the loop markers, the sector indices the loop runs over
  (\<^verbatim>\<open>SECTOR_LOOP_START\<close> carries the first and the last index), and the checksum
  regions of a sequence of instructions.
\<close>

definition count_type :: "field_type \<Rightarrow> desc_e list \<Rightarrow> nat" where
  "count_type t d = length (filter (\<lambda>e. type_e e = t) d)"

definition before_type :: "field_type \<Rightarrow> desc_e list \<Rightarrow> desc_e list" where
  "before_type t d = takeWhile (\<lambda>e. type_e e \<noteq> t) d"

definition after_type :: "field_type \<Rightarrow> desc_e list \<Rightarrow> desc_e list" where
  "after_type t d = drop 1 (dropWhile (\<lambda>e. type_e e \<noteq> t) d)"

definition loop_body :: "desc_e list \<Rightarrow> desc_e list" where
  "loop_body d = before_type SECTOR_LOOP_END (after_type SECTOR_LOOP_START d)"

definition loop_indices :: "desc_e list \<Rightarrow> int list" where
  "loop_indices d =
     (case filter (\<lambda>e. type_e e = SECTOR_LOOP_START) d of
        [e] \<Rightarrow> [p1 e..p2 e]
      | _ \<Rightarrow> [])"

text \<open>
  \<open>crc_scan\<close> walks a sequence of instructions and returns its checksum regions in
  order, each with its id and the instructions it encloses. It returns \<open>None\<close> unless
  every \<^verbatim>\<open>CRC_CCITT_START\<close> is closed by the \<^verbatim>\<open>CRC_END\<close> of the same id, with no
  other region opened in between, and the \<^verbatim>\<open>CRC\<close> of that id follows at once.
\<close>

fun crc_scan :: "(int \<times> desc_e list) option \<Rightarrow> desc_e list \<Rightarrow> (int \<times> desc_e list) list option" where
  "crc_scan None [] = Some []"
| "crc_scan (Some r) [] = None"
| "crc_scan cur (e # es) =
     (if type_e e = CRC_CCITT_START then
        (case cur of
           None \<Rightarrow> crc_scan (Some (p1 e, [])) es
         | Some r \<Rightarrow> None)
      else if type_e e = CRC_END then
        (case (cur, es) of
           (Some (i, r), c # es') \<Rightarrow>
             if p1 e = i \<and> type_e c = CRC \<and> p1 c = i
             then map_option (Cons (i, r)) (crc_scan None es')
             else None
         | _ \<Rightarrow> None)
      else if type_e e = CRC then None
      else
        (case cur of
           None \<Rightarrow> crc_scan None es
         | Some (i, r) \<Rightarrow> crc_scan (Some (i, r @ [e])) es))"

definition sync_values :: "int list" where
  "sync_values = [0x5224, 0x4489]"

subsection \<open>The loops of save, flattened\<close>

text \<open>
  The positions \<open>(track, head, sector)\<close> in the order the three nested loops visit them,
  the sectors extracted for one track and head, and the test of line 175. \<open>save_flat\<close>
  runs the loop body over a list of positions; \<open>write_step\<close> is the body when the test
  passes, \<open>stop_at\<close> the exit at the first position that fails it.
\<close>

definition positions :: "nat \<Rightarrow> nat \<Rightarrow> nat \<Rightarrow> (nat \<times> nat \<times> nat) list" where
  "positions tracks heads sectors =
     concat (map (\<lambda>t. concat (map (\<lambda>h. map (\<lambda>s. (t, h, s)) [0..<sectors]) [0..<heads])) [0..<tracks])"

definition extracted :: "'img floppy_ops \<Rightarrow> 'img \<Rightarrow> nat \<Rightarrow> nat \<Rightarrow> byte list list" where
  "extracted ops img t h =
     extract_sectors_from_bitstream_mfm_pc ops
       (generate_bitstream_from_track ops (int t) (int h) 2000 img)"

definition size_ok :: "'img floppy_ops \<Rightarrow> 'img \<Rightarrow> nat \<times> nat \<times> nat \<Rightarrow> bool" where
  "size_ok ops img p =
     (case p of (t, h, s) \<Rightarrow>
        s < length (extracted ops img t h) \<and>
        length (extracted ops img t h ! s) = sector_expected_size s)"

fun contiguous_from :: "nat \<Rightarrow> write_call list \<Rightarrow> bool" where
  "contiguous_from off [] = True"
| "contiguous_from off (w # ws) = (w_offset w = off \<and> contiguous_from (off + w_length w) ws)"

fun save_flat ::
  "'img floppy_ops \<Rightarrow> 'img \<Rightarrow> (nat \<times> nat \<times> nat) list \<Rightarrow> save_state \<Rightarrow> save_state \<times> outcome option" where
  "save_flat ops img [] st = (st, None)"
| "save_flat ops img ((t, h, s) # ps) st =
     (case save_sectors (int t) (extracted ops img t h) [s] st of
        (st', Some r) \<Rightarrow> (st', Some r)
      | (st', None) \<Rightarrow> save_flat ops img ps st')"

definition write_step :: "'img floppy_ops \<Rightarrow> 'img \<Rightarrow> save_state \<Rightarrow> nat \<times> nat \<times> nat \<Rightarrow> save_state" where
  "write_step ops img st p =
     (case p of (t, h, s) \<Rightarrow>
        st\<lparr>writes := writes st @
              [\<lparr>w_offset = file_offset st, w_data = extracted ops img t h ! s,
                w_length = sector_expected_size s\<rparr>],
            file_offset := file_offset st + sector_expected_size s\<rparr>)"

definition stop_at ::
  "'img floppy_ops \<Rightarrow> 'img \<Rightarrow> save_state \<Rightarrow> (nat \<times> nat \<times> nat) list \<Rightarrow> save_state \<times> outcome option" where
  "stop_at ops img st ps =
     (case ps of
        [] \<Rightarrow> (st, None)
      | (t, h, s) # _ \<Rightarrow>
          if length (extracted ops img t h) \<le> s then (st, Some Index_out_of_range)
          else (st\<lparr>errors := errors st @ [(int t, int s, length (extracted ops img t h ! s))]\<rparr>,
                Some (Returns False)))"

fun writes_from :: "'img floppy_ops \<Rightarrow> 'img \<Rightarrow> nat \<Rightarrow> (nat \<times> nat \<times> nat) list \<Rightarrow> write_call list" where
  "writes_from ops img off [] = []"
| "writes_from ops img off ((t, h, s) # ps) =
     \<lparr>w_offset = off, w_data = extracted ops img t h ! s, w_length = sector_expected_size s\<rparr>
       # writes_from ops img (off + sector_expected_size s) ps"

definition save_positions :: "'img floppy_ops \<Rightarrow> 'img \<Rightarrow> (nat \<times> nat \<times> nat) list" where
  "save_positions ops img =
     (case save_geometry (get_geometry_mfm_pc ops img 2000) of
        (tc, hc, sc) \<Rightarrow> positions (nat tc) (nat hc) (nat sc))"

subsection \<open>Concrete readers and images\<close>

text \<open>
  Inputs the properties are tried on: an unformatted medium whose every track decodes to six
  empty sectors, one whose every track decodes to an empty vector of sectors, a medium whose
  every track decodes to six sectors of the right sizes, a
  reader that reports the supported length and then fails every read, and an empty image.
  \<open>track_read\<close> is what one call of \<^verbatim>\<open>read_at\<close> in \<^verbatim>\<open>load\<close> delivers,
  \<open>read_of\<close> the call, and \<open>loaded_from\<close> relates a position to the call of the
  track generator made for it.
\<close>

definition blank_ops :: "unit floppy_ops" where
  "blank_ops =
     \<lparr> get_geometry_mfm_pc = (\<lambda>img cell_size. (0, 0, 0)),
       generate_bitstream_from_track = (\<lambda>track head cell_size img. []),
       extract_sectors_from_bitstream_mfm_pc = (\<lambda>bitstream. replicate 6 []) \<rparr>"


definition filled_ops :: "unit floppy_ops" where
  "filled_ops =
     \<lparr> get_geometry_mfm_pc = (\<lambda>img cell_size. (80, 2, 6)),
       generate_bitstream_from_track = (\<lambda>track head cell_size img. []),
       extract_sectors_from_bitstream_mfm_pc =
         (\<lambda>bitstream. replicate 5 (replicate 1024 0) @ [replicate 512 0]) \<rparr>"

definition track_read :: "random_read \<Rightarrow> int \<Rightarrow> nat \<Rightarrow> nat \<Rightarrow> byte list" where
  "track_read io head_count t h =
     take track_size
       (snd (io_read_at io (of_int ((int t * head_count + int h) * int track_size)) track_size))"

definition read_of :: "random_read \<Rightarrow> int \<Rightarrow> nat \<times> nat \<Rightarrow> read_call" where
  "read_of io head_count p =
     (case p of (t, h) \<Rightarrow>
        \<lparr>r_offset = (int t * head_count + int h) * int track_size, r_length = track_size,
          r_actual = length (track_read io head_count t h)\<rparr>)"

definition loaded_from ::
  "random_read \<Rightarrow> int \<Rightarrow> desc_s list \<Rightarrow> int \<Rightarrow> nat \<times> nat \<Rightarrow> track_call \<Rightarrow> bool" where
  "loaded_from io head_count sectors sector_count p c =
     (case p of (t, h) \<Rightarrow>
        g_desc c = esq_6_desc \<and> g_track c = int t \<and> g_head c = int h \<and>
        g_sectors c = sectors \<and> g_sector_count c = sector_count \<and> g_cells c = 109376 \<and>
        take (length (track_read io head_count t h)) (g_sectdata c) = track_read io head_count t h)"

definition track_heads :: "nat \<Rightarrow> nat \<Rightarrow> (nat \<times> nat) list" where
  "track_heads tracks heads = concat (map (\<lambda>t. map (Pair t) [0..<heads]) [0..<tracks])"

definition dead_io :: random_read where
  "dead_io = \<lparr>io_length = (0, 450560), io_read_at = (\<lambda>off n. (5, []))\<rparr>"

definition blank_image :: floppy_image where
  "blank_image = \<lparr>generated = [], variant = None\<rparr>"

subsection \<open>The track codec of the specification\<close>

text \<open>
  Modelled from the spec: the track encoder (\<^verbatim>\<open>generate_track\<close>), the recovery of a
  bit stream from a track (\<^verbatim>\<open>generate_bitstream_from_track\<close>) and the track decoder
  (\<^verbatim>\<open>extract_sectors_from_bitstream_mfm_pc\<close>) belong to \<^verbatim>\<open>floppy_image_format_t\<close>,
  which is not part of this file. What follows is the codec of the specification (sections 4.1
  to 4.4), with the modulation, the checksum and the sync mark that \<^verbatim>\<open>esq_6_desc\<close>
  names: MFM cells, the CCITT checksum, the raw pattern 0x4489. A track image is the list of
  its cells. Bytes and raw patterns are written most significant bit first.
\<close>

definition byte_bits :: "byte \<Rightarrow> bool list" where
  "byte_bits b = rev (map (bit b) [0..<8])"

definition bits_byte :: "bool list \<Rightarrow> byte" where
  "bits_byte ds = horner_sum of_bool 2 (rev ds)"

definition word16_bits :: "16 word \<Rightarrow> bool list" where
  "word16_bits w = rev (map (bit w) [0..<16])"

text \<open>
  Modelled from the spec: the normal modulation of the encoder, missing with
  \<^verbatim>\<open>generate_track\<close>. Every data bit is preceded by a clock cell, which is set exactly
  when the data bits on both sides are clear; \<open>data_bits\<close> reads the data cells back.
\<close>

fun mfm_cells :: "bool \<Rightarrow> bool list \<Rightarrow> bool list" where
  "mfm_cells prev [] = []"
| "mfm_cells prev (d # ds) = (\<not> prev \<and> \<not> d) # d # mfm_cells d ds"

fun data_bits :: "bool list \<Rightarrow> bool list" where
  "data_bits (c # d # cells) = d # data_bits cells"
| "data_bits cells = []"

fun mfm_bytes :: "bool \<Rightarrow> byte list \<Rightarrow> bool list" where
  "mfm_bytes prev [] = []"
| "mfm_bytes prev (b # bs) = mfm_cells prev (byte_bits b) @ mfm_bytes (bit b 0) bs"

text \<open>
  Modelled from the spec: the scan of the decoder for the sync mark, missing with
  \<^verbatim>\<open>extract_sectors_from_bitstream_mfm_pc\<close>. \<open>sync_scan k cells\<close> is the position,
  counted from \<open>k\<close>, of the first window of 16 cells that holds the pattern 0x4489.
\<close>

definition sync_cells :: "bool list" where
  "sync_cells = word16_bits 0x4489"

fun sync_scan :: "nat \<Rightarrow> bool list \<Rightarrow> nat option" where
  "sync_scan k [] = None"
| "sync_scan k (c # cells) =
     (if take 16 (c # cells) = sync_cells then Some k else sync_scan (Suc k) cells)"

text \<open>
  Modelled from the spec: the checksum engine (section 4.1), missing with
  \<^verbatim>\<open>floppy_image_format_t\<close>: a 16-bit checksum with the polynomial 0x1021, started at
  0xffff, fed bytes most significant bit first.
\<close>

definition crc_bit :: "bool \<Rightarrow> 16 word \<Rightarrow> 16 word" where
  "crc_bit b c = (if bit c 15 \<noteq> b then push_bit 1 c XOR 0x1021 else push_bit 1 c)"

definition crc_byte :: "byte \<Rightarrow> 16 word \<Rightarrow> 16 word" where
  "crc_byte x c = fold crc_bit (byte_bits x) c"

definition crc_ccitt :: "byte list \<Rightarrow> 16 word" where
  "crc_ccitt bs = fold crc_byte bs 0xffff"

definition crc_hi :: "16 word \<Rightarrow> byte" where
  "crc_hi c = ucast (drop_bit 8 c)"

definition crc_lo :: "16 word \<Rightarrow> byte" where
  "crc_lo c = ucast c"

text \<open>
  Modelled from the spec: the track encoder (section 4.3), missing with
  \<^verbatim>\<open>generate_track\<close>. It walks the descriptor from left to right with an output
  buffer, the last data bit written and one accumulator for each checksum region. A byte is
  written MFM-modulated, a raw pattern as it is, and both are folded into every open region
  (a raw pattern as the byte its data cells spell). The instructions before the loop are
  run once, the loop body once for each sector index with the sector of that index, the
  instructions after the loop once.
\<close>

record sector_spec =
  sp_sector_id :: int
  sp_size :: int
  sp_data :: "byte list"

record encoder =
  out_cells :: "bool list"
  last_bit :: bool
  crc_open :: "int list"
  crc_acc :: "int \<Rightarrow> 16 word"

definition raw_byte :: "16 word \<Rightarrow> byte" where
  "raw_byte w = bits_byte (data_bits (word16_bits w))"

definition put_byte :: "byte \<Rightarrow> encoder \<Rightarrow> encoder" where
  "put_byte b e =
     e\<lparr>out_cells := out_cells e @ mfm_cells (last_bit e) (byte_bits b),
       last_bit := bit b 0,
       crc_acc := (\<lambda>i. if i \<in> set (crc_open e) then crc_byte b (crc_acc e i) else crc_acc e i)\<rparr>"

definition put_raw :: "16 word \<Rightarrow> encoder \<Rightarrow> encoder" where
  "put_raw w e =
     e\<lparr>out_cells := out_cells e @ word16_bits w,
       last_bit := bit w 0,
       crc_acc := (\<lambda>i. if i \<in> set (crc_open e) then crc_byte (raw_byte w) (crc_acc e i)
                       else crc_acc e i)\<rparr>"

definition size_code :: "int \<Rightarrow> byte" where
  "size_code n = of_nat (length (takeWhile (\<lambda>k. 128 * 2 ^ k < n) [0..<8]))"

definition step :: "int \<Rightarrow> int \<Rightarrow> sector_spec \<Rightarrow> desc_e \<Rightarrow> encoder \<Rightarrow> encoder" where
  "step track head sp d e =
     (case type_e d of
        MFM \<Rightarrow> fold put_byte (replicate (nat (p2 d)) (of_int (p1 d))) e
      | RAW \<Rightarrow> fold put_raw (replicate (nat (p2 d)) (of_int (p1 d))) e
      | TRACK_ID \<Rightarrow> put_byte (of_int track) e
      | HEAD_ID \<Rightarrow> put_byte (of_int head) e
      | SECTOR_ID \<Rightarrow> put_byte (of_int (sp_sector_id sp)) e
      | SIZE_ID \<Rightarrow> put_byte (size_code (sp_size sp)) e
      | SECTOR_DATA \<Rightarrow>
          fold put_byte (if p1 d < 0 then sp_data sp else take (nat (p1 d)) (sp_data sp)) e
      | CRC_CCITT_START \<Rightarrow>
          e\<lparr>crc_open := p1 d # crc_open e, crc_acc := (crc_acc e)(p1 d := 0xffff)\<rparr>
      | CRC_END \<Rightarrow> e\<lparr>crc_open := removeAll (p1 d) (crc_open e)\<rparr>
      | CRC \<Rightarrow> put_byte (crc_lo (crc_acc e (p1 d))) (put_byte (crc_hi (crc_acc e (p1 d))) e)
      | SECTOR_LOOP_START \<Rightarrow> e
      | SECTOR_LOOP_END \<Rightarrow> e
      | END \<Rightarrow> e)"

text \<open>
  Modelled from the spec: \<open>encode(layout, sectors, track_id, head_id)\<close> of section 4.3, in
  place of the missing \<^verbatim>\<open>generate_track\<close>. The result is the track image, the cells
  written.
\<close>

definition encode :: "desc_e list \<Rightarrow> sector_spec list \<Rightarrow> int \<Rightarrow> int \<Rightarrow> bool list" where
  "encode layout sectors track head =
     (let e0 = \<lparr>out_cells = [], last_bit = False, crc_open = [], crc_acc = (\<lambda>i. 0)\<rparr>;
          none = \<lparr>sp_sector_id = 0, sp_size = 0, sp_data = []\<rparr>;
          e1 = fold (step track head none) (before_type SECTOR_LOOP_START layout) e0;
          e2 = fold (\<lambda>i. fold (step track head (sectors ! nat i)) (loop_body layout))
                 (filter (\<lambda>i. 0 \<le> i \<and> nat i < length sectors) (loop_indices layout)) e1;
          e3 = fold (step track head none) (after_type SECTOR_LOOP_END layout) e2
      in out_cells e3)"

text \<open>
  Modelled from the spec: the cells one sector takes in the track image of the encoder, written out: three sync
  marks, the identification field with its checksum, the gap, three sync marks, the data field
  with its checksum (\<open>sector_head\<close>), and the gap that ends the sector.
\<close>

definition sync_byte :: byte where
  "sync_byte = raw_byte 0x4489"

definition id_field :: "int \<Rightarrow> int \<Rightarrow> sector_spec \<Rightarrow> byte list" where
  "id_field track head sp =
     [0xfe, of_int track, of_int head, of_int (sp_sector_id sp), size_code (sp_size sp)]"

definition id_crc :: "int \<Rightarrow> int \<Rightarrow> sector_spec \<Rightarrow> 16 word" where
  "id_crc track head sp = crc_ccitt (replicate 3 sync_byte @ id_field track head sp)"

definition data_crc :: "sector_spec \<Rightarrow> 16 word" where
  "data_crc sp = crc_ccitt (replicate 3 sync_byte @ 0xfb # sp_data sp)"

definition sync3 :: "bool list" where
  "sync3 = sync_cells @ sync_cells @ sync_cells"

definition gap2 :: "byte list" where
  "gap2 = replicate 22 0x4e @ replicate 12 0"

definition gap3 :: "byte list" where
  "gap3 = replicate 84 0x4e @ replicate 12 0"

definition sector_head :: "int \<Rightarrow> int \<Rightarrow> sector_spec \<Rightarrow> bool list" where
  "sector_head track head sp =
     sync3 @
     mfm_bytes True (id_field track head sp @
                     [crc_hi (id_crc track head sp), crc_lo (id_crc track head sp)] @ gap2) @
     sync3 @
     mfm_bytes True (0xfb # sp_data sp @ [crc_hi (data_crc sp), crc_lo (data_crc sp)])"

definition sector_cells :: "int \<Rightarrow> int \<Rightarrow> sector_spec \<Rightarrow> bool list" where
  "sector_cells track head sp =
     sector_head track head sp @ mfm_bytes (bit (crc_lo (data_crc sp)) 0) gap3"

definition pre_cells :: "bool list" where
  "pre_cells =
     mfm_bytes False (replicate 80 0x4e @ replicate 12 0) @
     word16_bits 0x5224 @ word16_bits 0x5224 @ word16_bits 0x5224 @
     mfm_bytes False (0xfc # replicate 50 0x4e @ replicate 12 0)"

definition post_cells :: "bool list" where
  "post_cells = mfm_bytes False (replicate 170 0x4e)"

text \<open>
  Modelled from the spec: the track decoder (section 4.4), missing with
  \<^verbatim>\<open>extract_sectors_from_bitstream_mfm_pc\<close>. It scans for a sync mark, skips the sync
  marks that follow it, and reads an identification field; when the mark is 0xfe, the
  checksum is right and the sector id has an expected size, it scans a bounded window (the
  spec gives no bound; 1024 cells here) for the next sync mark and reads the data mark 0xfb,
  as many bytes as the sector is expected to have, and the checksum. The sector is stored at
  the index its identification field gives; a wrong data checksum is recorded in its status.
  The scan then goes on behind what was read, until no sync mark is left. A slot for which
  nothing was found stays \<open>unresolved\<close>.
\<close>

datatype sector_status = Unresolved | Data_checksum_error | Recovered

record decoded =
  d_status :: sector_status
  d_track :: byte
  d_head :: byte
  d_sector_id :: byte
  d_size_code :: byte
  d_data :: "byte list"

definition unresolved :: decoded where
  "unresolved =
     \<lparr>d_status = Unresolved, d_track = 0, d_head = 0, d_sector_id = 0, d_size_code = 0,
       d_data = []\<rparr>"

fun read_bytes :: "nat \<Rightarrow> bool list \<Rightarrow> (byte list \<times> bool list) option" where
  "read_bytes 0 cells = Some ([], cells)"
| "read_bytes (Suc n) cells =
     (if length cells < 16 then None
      else case read_bytes n (drop 16 cells) of
             None \<Rightarrow> None
           | Some (bs, rest) \<Rightarrow> Some (bits_byte (data_bits (take 16 cells)) # bs, rest))"

function skip_syncs :: "bool list \<Rightarrow> bool list" where
  "skip_syncs cells =
     (if take 16 cells = sync_cells then skip_syncs (drop 16 cells) else cells)"
  by pat_completeness auto
termination
proof (relation "measure length")
  show "wf (measure length)" by simp
next
  fix cells :: "bool list"
  assume "take 16 cells = sync_cells"
  then have "length (take 16 cells) = 16"
    by (simp add: sync_cells_def word16_bits_def)
  then show "(drop 16 cells, cells) \<in> measure length" by simp
qed

definition field_crc_ok :: "byte list \<Rightarrow> byte \<Rightarrow> byte \<Rightarrow> bool" where
  "field_crc_ok bs hi lo =
     (crc_hi (crc_ccitt (replicate 3 sync_byte @ bs)) = hi \<and>
      crc_lo (crc_ccitt (replicate 3 sync_byte @ bs)) = lo)"

definition data_window :: nat where
  "data_window = 1024"

definition decode_data ::
  "nat \<Rightarrow> byte list \<Rightarrow> bool list \<Rightarrow> (decoded \<times> bool list) option" where
  "decode_data n idf cells =
     (case sync_scan 0 (take data_window cells) of
        None \<Rightarrow> None
      | Some k \<Rightarrow>
          (case read_bytes (1 + n + 2) (skip_syncs (drop (k + 16) cells)) of
             None \<Rightarrow> None
           | Some (df, rest) \<Rightarrow>
               if df ! 0 = 0xfb then
                 Some (\<lparr>d_status =
                          (if field_crc_ok (take (1 + n) df) (df ! (1 + n)) (df ! (2 + n))
                           then Recovered else Data_checksum_error),
                        d_track = idf ! 1, d_head = idf ! 2, d_sector_id = idf ! 3,
                        d_size_code = idf ! 4, d_data = take n (drop 1 df)\<rparr>, rest)
               else None))"

definition decode_sector ::
  "nat list \<Rightarrow> bool list \<Rightarrow> (nat \<times> decoded) option \<times> bool list" where
  "decode_sector sizes field =
     (case read_bytes 7 (skip_syncs field) of
        None \<Rightarrow> (None, field)
      | Some (idf, rest) \<Rightarrow>
          if idf ! 0 = 0xfe \<and> field_crc_ok (take 5 idf) (idf ! 5) (idf ! 6) \<and>
             unat (idf ! 3) < length sizes
          then
            (case decode_data (sizes ! unat (idf ! 3)) idf rest of
               None \<Rightarrow> (None, rest)
             | Some (d, rest') \<Rightarrow> (Some (unat (idf ! 3), d), rest'))
          else (None, field))"

text \<open>
  Modelled from the spec: the scanning loop of the decoder of section 4.4, in place of the
  missing \<^verbatim>\<open>extract_sectors_from_bitstream_mfm_pc\<close>. What is left to scan gets shorter
  with every sync mark, which the test on the lengths makes plain.
\<close>

function decode_from :: "nat list \<Rightarrow> bool list \<Rightarrow> decoded list \<Rightarrow> decoded list" where
  "decode_from sizes cells res =
     (case sync_scan 0 cells of
        None \<Rightarrow> res
      | Some k \<Rightarrow>
          (case decode_sector sizes (drop (k + 16) cells) of
             (found, rest) \<Rightarrow>
               let res' = (case found of None \<Rightarrow> res | Some (i, d) \<Rightarrow> res[i := d])
               in if length rest < length cells then decode_from sizes rest res' else res'))"
  by pat_completeness auto
termination
  by (relation "measure (\<lambda>(sizes, cells, res). length cells)") auto

text \<open>
  Modelled from the spec: \<open>decode(raw_track_bits, sector_count, expected_sizes)\<close> of section
  4.4, in place of the missing \<^verbatim>\<open>extract_sectors_from_bitstream_mfm_pc\<close>: one entry for
  each sector slot, all unresolved before the scan.
\<close>

definition decode :: "bool list \<Rightarrow> nat \<Rightarrow> nat list \<Rightarrow> decoded list" where
  "decode cells sector_count sizes = decode_from sizes cells (replicate sector_count unresolved)"

definition recovered :: "int \<Rightarrow> int \<Rightarrow> sector_spec \<Rightarrow> decoded" where
  "recovered track head sp =
     \<lparr>d_status = Recovered, d_track = of_int track, d_head = of_int head,
       d_sector_id = of_int (sp_sector_id sp), d_size_code = size_code (sp_size sp),
       d_data = sp_data sp\<rparr>"

text \<open>
  Modelled from the spec: the functions \<^verbatim>\<open>save\<close> reads an image through, missing with
  \<^verbatim>\<open>floppy_image_format_t\<close>, for the images \<^verbatim>\<open>load\<close> builds. The bit stream of a
  track is the encoding of the last call of the track generator for that track and head (none
  for a track never generated); the extracted sectors are the payloads the decoder finds for
  the six sector slots of the format; the probed geometry is one more than the highest track
  and head generated, and the number of sectors recovered from track 0.
\<close>

definition esq_sizes :: "nat list" where
  "esq_sizes = [1024, 1024, 1024, 1024, 1024, 512]"

definition sector_specs :: "track_call \<Rightarrow> sector_spec list" where
  "sector_specs c =
     map (\<lambda>d. \<lparr>sp_sector_id = sector_id d, sp_size = size_s d,
                 sp_data = sector_payload (g_sectdata c) d\<rparr>)
       (take (nat (g_sector_count c)) (g_sectors c))"

text \<open>
  Modelled from the spec: the bit stream of one track of an image, in place of the missing
  \<^verbatim>\<open>generate_bitstream_from_track\<close>.
\<close>

definition track_cells :: "floppy_image \<Rightarrow> int \<Rightarrow> int \<Rightarrow> bool list" where
  "track_cells img track head =
     (case filter (\<lambda>c. g_track c = track \<and> g_head c = head) (generated img) of
        [] \<Rightarrow> []
      | c # cs \<Rightarrow> encode (g_desc (last (c # cs))) (sector_specs (last (c # cs))) track head)"

text \<open>
  Modelled from the spec: the geometry probed from a formatted medium (section 4.5), in place of
  the missing \<^verbatim>\<open>get_geometry_mfm_pc\<close>. An image with no track reports zero heads.
\<close>

definition probe_geometry :: "floppy_image \<Rightarrow> int \<times> int \<times> int" where
  "probe_geometry img =
     (fold max (map g_track (generated img)) (- 1) + 1,
      fold max (map g_head (generated img)) (- 1) + 1,
      int (length (filter (\<lambda>d. d_status d = Recovered) (decode (track_cells img 0 0) 6 esq_sizes))))"

text \<open>
  Modelled from the spec: the three missing functions together, as \<^verbatim>\<open>save\<close> calls them.
\<close>

definition codec_ops :: "floppy_image floppy_ops" where
  "codec_ops =
     \<lparr> get_geometry_mfm_pc = (\<lambda>img cell_size. probe_geometry img),
       generate_bitstream_from_track = (\<lambda>track head cell_size img. track_cells img track head),
       extract_sectors_from_bitstream_mfm_pc =
         (\<lambda>bitstream. map d_data (decode bitstream 6 esq_sizes)) \<rparr>"

definition zero_sectors :: "sector_spec list" where
  "zero_sectors =
     [\<lparr>sp_sector_id = 0, sp_size = 1024, sp_data = replicate 1024 0\<rparr>,
      \<lparr>sp_sector_id = 1, sp_size = 1024, sp_data = replicate 1024 0\<rparr>,
      \<lparr>sp_sector_id = 2, sp_size = 1024, sp_data = replicate 1024 0\<rparr>,
      \<lparr>sp_sector_id = 3, sp_size = 1024, sp_data = replicate 1024 0\<rparr>,
      \<lparr>sp_sector_id = 4, sp_size = 1024, sp_data = replicate 1024 0\<rparr>,
      \<lparr>sp_sector_id = 5, sp_size = 512, sp_data = replicate 512 0\<rparr>]"

section \<open>Properties\<close>

subsection \<open>The three loops of save are one loop over the positions\<close>

lemma save_flat_append:
  "save_flat ops img (xs @ ys) st =
     (case save_flat ops img xs st of
        (st', Some r) \<Rightarrow> (st', Some r)
      | (st', None) \<Rightarrow> save_flat ops img ys st')"
  by (induction xs arbitrary: st) (auto split: prod.splits option.splits)

lemma save_sectors_flat:
  "save_sectors (int t) (extracted ops img t h) ss st =
     save_flat ops img (map (\<lambda>s. (t, h, s)) ss) st"
  by (induction ss arbitrary: st) (auto split: prod.splits option.splits)

lemma save_heads_flat:
  "save_heads ops img sc (int t) hs st =
     save_flat ops img (concat (map (\<lambda>h. map (\<lambda>s. (t, h, s)) [0..<nat sc]) hs)) st"
proof (induction hs arbitrary: st)
  case Nil
  then show ?case by simp
next
  case (Cons h hs)
  show ?case
    by (simp add: save_flat_append Cons.IH save_sectors_flat [symmetric] extracted_def Let_def
        del: save_sectors.simps split: prod.splits option.splits)
qed

lemma save_tracks_flat:
  "save_tracks ops img hc sc ts st =
     save_flat ops img
       (concat (map (\<lambda>t. concat (map (\<lambda>h. map (\<lambda>s. (t, h, s)) [0..<nat sc]) [0..<nat hc])) ts)) st"
proof (induction ts arbitrary: st)
  case Nil
  then show ?case by simp
next
  case (Cons t ts)
  show ?case
    by (simp add: save_flat_append Cons.IH save_heads_flat split: prod.splits option.splits)
qed

lemma write_step_triple:
  "write_step ops img st (t, h, s) =
     st\<lparr>writes := writes st @
           [\<lparr>w_offset = file_offset st, w_data = extracted ops img t h ! s,
             w_length = sector_expected_size s\<rparr>],
         file_offset := file_offset st + sector_expected_size s\<rparr>"
  by (simp add: write_step_def)

lemma save_flat_char:
  "save_flat ops img ps st =
     stop_at ops img (foldl (write_step ops img) st (takeWhile (size_ok ops img) ps))
       (dropWhile (size_ok ops img) ps)"
proof (induction ps arbitrary: st)
  case Nil
  then show ?case by (simp add: stop_at_def)
next
  case (Cons p ps)
  obtain t h s where p: "p = (t, h, s)" by (cases p)
  show ?case
  proof (cases "size_ok ops img p")
    case True
    then show ?thesis
      using Cons.IH by (simp add: p size_ok_def write_step_triple)
  next
    case False
    then show ?thesis
      by (auto simp add: p size_ok_def stop_at_def)
  qed
qed

lemma foldl_write_step:
  "foldl (write_step ops img) st ps =
     st\<lparr>writes := writes st @ writes_from ops img (file_offset st) ps,
        file_offset := file_offset st + sum_list (map (\<lambda>(t, h, s). sector_expected_size s) ps)\<rparr>"
proof (induction ps arbitrary: st)
  case Nil
  then show ?case by simp
next
  case (Cons p ps)
  obtain t h s where p: "p = (t, h, s)" by (cases p)
  show ?case by (simp add: Cons.IH p write_step_triple add.assoc)
qed

lemma contiguous_writes_from: "contiguous_from off (writes_from ops img off ps)"
  by (induction ps arbitrary: off) auto

lemma map_data_writes_from:
  "map w_data (writes_from ops img off ps) = map (\<lambda>(t, h, s). extracted ops img t h ! s) ps"
  by (induction ps arbitrary: off) auto

lemma save_char:
  "save ops vs img =
     (case stop_at ops img
        (foldl (write_step ops img) \<lparr>file_offset = 0, writes = [], errors = []\<rparr>
                (takeWhile (size_ok ops img) (save_positions ops img)))
        (dropWhile (size_ok ops img) (save_positions ops img)) of
        (st, Some r) \<Rightarrow> (r, st)
      | (st, None) \<Rightarrow> (Returns True, st))"
  by (simp add: save_def save_positions_def save_tracks_flat save_flat_char positions_def
      split: prod.splits)

subsection \<open>What save writes, and what load reads\<close>

lemma save_outcome:
  "save ops vs img =
     (let good = takeWhile (size_ok ops img) (save_positions ops img);
          st = \<lparr>file_offset = sum_list (map (\<lambda>(t, h, s). sector_expected_size s) good),
                writes = writes_from ops img 0 good, errors = []\<rparr>
      in case dropWhile (size_ok ops img) (save_positions ops img) of
           [] \<Rightarrow> (Returns True, st)
         | (t, h, s) # _ \<Rightarrow>
             if length (extracted ops img t h) \<le> s then (Index_out_of_range, st)
             else (Returns False,
                   st\<lparr>errors := [(int t, int s, length (extracted ops img t h ! s))]\<rparr>))"
proof (cases "dropWhile (size_ok ops img) (save_positions ops img)")
  case Nil
  show ?thesis
    unfolding save_char Nil by (simp add: foldl_write_step stop_at_def Let_def)
next
  case (Cons p ps)
  obtain t h s where p: "p = (t, h, s)" by (cases p)
  show ?thesis
    unfolding save_char Cons p by (simp add: foldl_write_step stop_at_def Let_def)
qed

lemma save_geometry_eq:
  "save_geometry (tc, hc, sc) = (80, (if hc = 0 then 1 else hc), 6)"
  by (simp add: save_geometry_def)

lemma save_positions_eq:
  "save_positions ops img =
     positions 80 (nat (let hc = fst (snd (get_geometry_mfm_pc ops img 2000)) in if hc = 0 then 1 else hc)) 6"
  by (cases "get_geometry_mfm_pc ops img 2000") (simp add: save_positions_def save_geometry_eq)

lemma set_positions:
  "set (positions tc hc sc) = {(t, h, s). t < tc \<and> h < hc \<and> s < sc}"
  by (force simp: positions_def)

lemma save_writes_all_ok:
  assumes "list_all (size_ok ops img) (save_positions ops img)"
  shows "save ops vs img =
     (Returns True,
      \<lparr>file_offset = sum_list (map (\<lambda>(t, h, s). sector_expected_size s) (save_positions ops img)),
        writes = writes_from ops img 0 (save_positions ops img), errors = []\<rparr>)"
proof -
  from assms have a: "\<forall>p\<in>set (save_positions ops img). size_ok ops img p"
    by (simp add: list_all_iff)
  then have tw: "takeWhile (size_ok ops img) (save_positions ops img) = save_positions ops img"
    and dw: "dropWhile (size_ok ops img) (save_positions ops img) = []"
    by simp_all
  show ?thesis unfolding save_outcome tw dw by (simp add: Let_def)
qed


lemma sector_lt_6_cases: "s < 6 \<Longrightarrow> s = 0 \<or> s = 1 \<or> s = 2 \<or> s = 3 \<or> s = 4 \<or> s = (5::nat)"
  by arith

lemma filled_ops_ok: "list_all (size_ok filled_ops ()) (save_positions filled_ops ())"
proof -
  have "size_ok filled_ops () (t, h, s)" if "s < 6" for t h s
    using sector_lt_6_cases [OF that]
    by (auto simp: size_ok_def extracted_def filled_ops_def sector_expected_size_def nth_append)
  then show ?thesis
    by (auto simp: list_all_iff save_positions_eq set_positions)
qed



lemma save_writes_prefix:
  "writes (snd (save ops vs img)) =
     writes_from ops img 0 (takeWhile (size_ok ops img) (save_positions ops img))"
proof (cases "dropWhile (size_ok ops img) (save_positions ops img)")
  case Nil
  show ?thesis unfolding save_outcome Nil by (simp add: Let_def)
next
  case (Cons p ps)
  obtain t h s where p: "p = (t, h, s)" by (cases p)
  show ?thesis unfolding save_outcome Cons p by (simp add: Let_def)
qed

lemma offsets_writes_from:
  "w \<in> set (writes_from ops img off ps) \<Longrightarrow> off \<le> w_offset w"
proof (induction ps arbitrary: off)
  case Nil
  then show ?case by simp
next
  case (Cons p ps)
  obtain t h s where p: "p = (t, h, s)" by (cases p)
  from Cons.prems Cons.IH [of "off + sector_expected_size s"] show ?case
    by (auto simp: p)
qed

lemma sector_expected_size_pos: "0 < sector_expected_size s"
  by (simp add: sector_expected_size_def)

lemma ascending_writes_from:
  "sorted_wrt (<) (map w_offset (writes_from ops img off ps))"
proof (induction ps arbitrary: off)
  case Nil
  then show ?case by simp
next
  case (Cons p ps)
  obtain t h s where p: "p = (t, h, s)" by (cases p)
  have "off < w_offset w" if "w \<in> set (writes_from ops img (off + sector_expected_size s) ps)" for w
    using offsets_writes_from [OF that] sector_expected_size_pos [of s] by simp
  with Cons.IH show ?case by (auto simp: p)
qed

lemma lengths_writes_from:
  "list_all (size_ok ops img) ps \<Longrightarrow>
   list_all (\<lambda>w. length (w_data w) = w_length w \<and> (w_length w = 1024 \<or> w_length w = 512))
     (writes_from ops img off ps)"
proof (induction ps arbitrary: off)
  case Nil
  then show ?case by simp
next
  case (Cons p ps)
  obtain t h s where p: "p = (t, h, s)" by (cases p)
  from Cons show ?case
    by (auto simp: p size_ok_def sector_expected_size_def)
qed


lemma length_positions: "length (positions tc hc sc) = tc * hc * sc"
  by (simp add: positions_def length_concat comp_def sum_list_triv ac_simps)

lemma take_min_length: "take (min (length xs) n) xs = take n xs"
  by (cases "length xs \<le> n") (simp_all add: min_def)

lemma load_track_char:
  "reads (load_track io hc secs sc (int t) h st) = reads st @ [read_of io hc (t, h)] \<and>
   variant (l_image (load_track io hc secs sc (int t) h st)) = variant (l_image st) \<and>
   (\<exists>c. generated (l_image (load_track io hc secs sc (int t) h st)) = generated (l_image st) @ [c] \<and>
        loaded_from io hc secs sc (t, h) c)"
  by (simp add: load_track_def read_of_def loaded_from_def track_read_def generate_track_def
      take_min_length Let_def split: prod.splits)

lemma load_heads_char:
  "reads (load_heads io hc secs sc (int t) hs st) = reads st @ map (\<lambda>h. read_of io hc (t, h)) hs \<and>
   variant (l_image (load_heads io hc secs sc (int t) hs st)) = variant (l_image st) \<and>
   (\<exists>cs. generated (l_image (load_heads io hc secs sc (int t) hs st)) = generated (l_image st) @ cs \<and>
        list_all2 (loaded_from io hc secs sc) (map (Pair t) hs) cs)"
proof (induction hs arbitrary: st)
  case Nil
  then show ?case by simp
next
  case (Cons h hs)
  let ?st = "load_track io hc secs sc (int t) h st"
  from load_track_char [of io hc secs sc t h st]
  obtain c where r: "reads ?st = reads st @ [read_of io hc (t, h)]"
    and v: "variant (l_image ?st) = variant (l_image st)"
    and g: "generated (l_image ?st) = generated (l_image st) @ [c]"
    and c: "loaded_from io hc secs sc (t, h) c"
    by blast
  from Cons.IH [of ?st]
  obtain cs where r': "reads (load_heads io hc secs sc (int t) hs ?st) =
        reads ?st @ map (\<lambda>h. read_of io hc (t, h)) hs"
    and v': "variant (l_image (load_heads io hc secs sc (int t) hs ?st)) = variant (l_image ?st)"
    and g': "generated (l_image (load_heads io hc secs sc (int t) hs ?st)) =
        generated (l_image ?st) @ cs"
    and cs: "list_all2 (loaded_from io hc secs sc) (map (Pair t) hs) cs"
    by blast
  have "list_all2 (loaded_from io hc secs sc) (map (Pair t) (h # hs)) (c # cs)"
    using c cs by simp
  moreover have "generated (l_image (load_heads io hc secs sc (int t) (h # hs) st)) =
      generated (l_image st) @ (c # cs)"
    using g g' by simp
  ultimately show ?case using r r' v v' by auto
qed

lemma load_tracks_char:
  "reads (load_tracks io hc secs sc ts st) =
     reads st @ map (read_of io hc) (concat (map (\<lambda>t. map (Pair t) [0..<nat hc]) ts)) \<and>
   variant (l_image (load_tracks io hc secs sc ts st)) = variant (l_image st) \<and>
   (\<exists>cs. generated (l_image (load_tracks io hc secs sc ts st)) = generated (l_image st) @ cs \<and>
        list_all2 (loaded_from io hc secs sc) (concat (map (\<lambda>t. map (Pair t) [0..<nat hc]) ts)) cs)"
proof (induction ts arbitrary: st)
  case Nil
  then show ?case by simp
next
  case (Cons t ts)
  let ?st = "load_heads io hc secs sc (int t) [0..<nat hc] st"
  from load_heads_char [of io hc secs sc t "[0..<nat hc]" st]
  obtain cs1 where r: "reads ?st = reads st @ map (\<lambda>h. read_of io hc (t, h)) [0..<nat hc]"
    and v: "variant (l_image ?st) = variant (l_image st)"
    and g: "generated (l_image ?st) = generated (l_image st) @ cs1"
    and c: "list_all2 (loaded_from io hc secs sc) (map (Pair t) [0..<nat hc]) cs1"
    by blast
  from Cons.IH [of ?st]
  obtain cs2 where r': "reads (load_tracks io hc secs sc ts ?st) =
        reads ?st @ map (read_of io hc) (concat (map (\<lambda>t. map (Pair t) [0..<nat hc]) ts))"
    and v': "variant (l_image (load_tracks io hc secs sc ts ?st)) = variant (l_image ?st)"
    and g': "generated (l_image (load_tracks io hc secs sc ts ?st)) = generated (l_image ?st) @ cs2"
    and cs: "list_all2 (loaded_from io hc secs sc)
        (concat (map (\<lambda>t. map (Pair t) [0..<nat hc]) ts)) cs2"
    by blast
  have "list_all2 (loaded_from io hc secs sc)
      (concat (map (\<lambda>t. map (Pair t) [0..<nat hc]) (t # ts))) (cs1 @ cs2)"
    using c cs by (simp add: list_all2_appendI)
  moreover have "generated (l_image (load_tracks io hc secs sc (t # ts) st)) =
      generated (l_image st) @ (cs1 @ cs2)"
    using g g' by simp
  moreover have "reads (load_tracks io hc secs sc (t # ts) st) =
     reads st @ map (read_of io hc) (concat (map (\<lambda>t. map (Pair t) [0..<nat hc]) (t # ts)))"
    using r r' by (simp add: comp_def)
  ultimately show ?case using v v' by auto
qed

lemma load_char:
  assumes "find_size io = (tc, hc, sc)"
  shows "fst (load io ff vs stack img) = True"
    and "reads (snd (load io ff vs stack img)) = map (read_of io hc) (track_heads (nat tc) (nat hc))"
    and "variant (l_image (snd (load io ff vs stack img))) = Some DSDD"
    and "\<exists>cs. generated (l_image (snd (load io ff vs stack img))) = generated img @ cs \<and>
           list_all2 (loaded_from io hc (load_sectors sc) sc) (track_heads (nat tc) (nat hc)) cs"
  using assms
    load_tracks_char [of io hc "load_sectors sc" sc "[0..<nat tc]"
      "\<lparr>sectdata = stack, reads = [], l_image = img\<rparr>"]
  by (simp_all add: load_def set_variant_def track_heads_def Let_def)

lemma size_eq_450560: "((s :: 64 word) = 450560) = (unat s = 450560)"
proof -
  have "unat (450560 :: 64 word) = 450560" by simp
  then show ?thesis by (simp only: word_unat_eq_iff)
qed

lemma find_size_cases: "find_size io = (80, 1, 6) \<or> find_size io = (0, 0, 0)"
  by (cases "io_length io") (simp add: find_size_def)

lemma track_heads_0 [simp]: "track_heads 0 n = []"
  by (simp add: track_heads_def)

lemma track_heads_1: "track_heads n (Suc 0) = map (\<lambda>t. (t, 0)) [0..<n]"
  by (simp add: track_heads_def concat_map_singleton)

lemma length_track_heads: "length (track_heads n m) = n * m"
  by (simp add: track_heads_def length_concat comp_def sum_list_triv)

lemma load_sectors_6:
  "load_sectors 6 =
     [\<lparr>size_s = 1024, data_s = 0, sector_id = 0\<rparr>,
      \<lparr>size_s = 1024, data_s = 1024, sector_id = 1\<rparr>,
      \<lparr>size_s = 1024, data_s = 2048, sector_id = 2\<rparr>,
      \<lparr>size_s = 1024, data_s = 3072, sector_id = 3\<rparr>,
      \<lparr>size_s = 1024, data_s = 4096, sector_id = 4\<rparr>,
      \<lparr>size_s = 512, data_s = 5120, sector_id = 5\<rparr>]"
  by (simp add: load_sectors_def load_sector_def upt_rec)


lemma find_size_dead_io: "find_size dead_io = (80, 1, 6)"
  by (simp add: find_size_def dead_io_def failed_def)

lemma list_all2_right:
  "list_all2 R ps cs \<Longrightarrow> (\<And>p c. R p c \<Longrightarrow> Q c) \<Longrightarrow> list_all Q cs"
  by (induction rule: list_all2_induct) auto

lemma length_writes_from: "length (writes_from ops img off ps) = length ps"
  by (induction ps arbitrary: off) auto

lemma contiguous_nth:
  "contiguous_from off ws \<Longrightarrow> k < length ws \<Longrightarrow>
   w_offset (ws ! k) = off + sum_list (map w_length (take k ws))"
proof (induction ws arbitrary: off k)
  case Nil
  then show ?case by simp
next
  case (Cons w ws)
  show ?case
  proof (cases k)
    case 0
    with Cons.prems show ?thesis by simp
  next
    case (Suc j)
    with Cons.prems Cons.IH [of "off + w_length w" j] show ?thesis by simp
  qed
qed

lemma sector_payload_slices:
  "map (sector_payload buf) (load_sectors 6) =
     [take 1024 buf, take 1024 (drop 1024 buf), take 1024 (drop 2048 buf),
      take 1024 (drop 3072 buf), take 1024 (drop 4096 buf), take 512 (drop 5120 buf)]"
  by (simp add: load_sectors_6 sector_payload_def)

lemma save_writes_lengths:
  "list_all (\<lambda>w. length (w_data w) = w_length w \<and> (w_length w = 1024 \<or> w_length w = 512))
     (writes (snd (save ops vs img)))"
proof -
  have "list_all (size_ok ops img) (takeWhile (size_ok ops img) (save_positions ops img))"
    by (auto simp: list_all_iff dest: set_takeWhileD)
  then show ?thesis
    unfolding save_writes_prefix by (rule lengths_writes_from)
qed

subsection \<open>The codec of the specification: encoding and decoding one track\<close>

lemma sync_cells_eq:
  "sync_cells = [False, True, False, False, False, True, False, False,
                 True, False, False, False, True, False, False, True]"
  by (simp add: sync_cells_def word16_bits_def upt_rec bit_numeral_rec)

lemma length_sync_cells: "length sync_cells = 16"
  by (simp add: sync_cells_eq)

lemma length_byte_bits [simp]: "length (byte_bits b) = 8"
  by (simp add: byte_bits_def)

lemma bits_byte_byte_bits [simp]: "bits_byte (byte_bits b) = b"
proof -
  have "bits_byte (byte_bits b) = take_bit 8 b"
    by (simp add: bits_byte_def byte_bits_def horner_sum_bit_eq_take_bit)
  then show ?thesis by (simp add: take_bit_word_eq_self)
qed

lemma length_mfm_cells [simp]: "length (mfm_cells p ds) = 2 * length ds"
  by (induction ds arbitrary: p) auto

lemma data_bits_mfm_cells [simp]: "data_bits (mfm_cells p ds @ rest) = ds @ data_bits rest"
  by (induction ds arbitrary: p) auto

lemma mfm_cells_append:
  "mfm_cells p (xs @ ys) = mfm_cells p xs @ mfm_cells (if xs = [] then p else last xs) ys"
  by (induction xs arbitrary: p) auto

lemma last_byte_bits: "last (byte_bits b) = bit b 0"
  by (simp add: byte_bits_def upt_rec last_rev)

lemma byte_bits_nonempty [simp]: "byte_bits b \<noteq> []"
  by (simp add: byte_bits_def upt_rec)

lemma mfm_bytes_cells: "mfm_bytes p bs = mfm_cells p (concat (map byte_bits bs))"
  by (induction bs arbitrary: p) (simp_all add: mfm_cells_append last_byte_bits)

lemma length_mfm_bytes [simp]: "length (mfm_bytes p bs) = 16 * length bs"
  by (induction bs arbitrary: p) auto

lemma mfm_bytes_append:
  "mfm_bytes p (xs @ ys) = mfm_bytes p xs @ mfm_bytes (if xs = [] then p else bit (last xs) 0) ys"
  by (induction xs arbitrary: p) auto

lemma long_list8:
  "8 \<le> length ds \<Longrightarrow> \<exists>d1 d2 d3 d4 d5 d6 d7 d8 r. ds = d1 # d2 # d3 # d4 # d5 # d6 # d7 # d8 # r"
  by (simp add: eval_nat_numeral Suc_le_length_iff) blast

lemma mfm_even_window: "take 16 (mfm_cells p ds) \<noteq> sync_cells"
proof (cases "8 \<le> length ds")
  case True
  from long_list8 [OF True] obtain d1 d2 d3 d4 d5 d6 d7 d8 r
    where "ds = d1 # d2 # d3 # d4 # d5 # d6 # d7 # d8 # r" by blast
  then show ?thesis by (auto simp: sync_cells_eq)
next
  case False
  show ?thesis
  proof
    assume "take 16 (mfm_cells p ds) = sync_cells"
    then have "length (take 16 (mfm_cells p ds)) = 16"
      by (simp only: length_sync_cells)
    with False show False by simp
  qed
qed

lemma mfm_odd_window: "take 16 (d # mfm_cells d ds) \<noteq> sync_cells"
proof (cases "8 \<le> length ds")
  case True
  from long_list8 [OF True] obtain d1 d2 d3 d4 d5 d6 d7 d8 r
    where "ds = d1 # d2 # d3 # d4 # d5 # d6 # d7 # d8 # r" by blast
  then show ?thesis by (auto simp: sync_cells_eq)
next
  case False
  show ?thesis
  proof
    assume "take 16 (d # mfm_cells d ds) = sync_cells"
    then have "length (take 16 (d # mfm_cells d ds)) = 16"
      by (simp only: length_sync_cells)
    with False show False by simp
  qed
qed

lemma mfm_cells_quiet: "sync_scan k (mfm_cells p ds) = None"
proof (induction ds arbitrary: k p)
  case Nil
  then show ?case by simp
next
  case (Cons d ds)
  have "take 16 (mfm_cells p (d # ds)) \<noteq> sync_cells" by (rule mfm_even_window)
  moreover have "take 16 (d # mfm_cells d ds) \<noteq> sync_cells" by (rule mfm_odd_window)
  ultimately show ?case using Cons.IH by simp
qed

lemma sync_scan_shift: "sync_scan k cells = map_option (\<lambda>j. j + k) (sync_scan 0 cells)"
proof (induction cells arbitrary: k)
  case Nil
  then show ?case by simp
next
  case (Cons c cells)
  show ?case
    using Cons.IH [of "Suc k"] Cons.IH [of "Suc 0"]
    by (simp add: option.map_comp comp_def)
qed

lemma sync_scan_None_shift: "sync_scan k cells = None \<Longrightarrow> sync_scan j cells = None"
  using sync_scan_shift [of k cells] sync_scan_shift [of j cells] by simp

lemma take_append_take: "take n (xs @ ys) = take n (xs @ take n ys)"
  by (simp add: take_append min_def)

lemma take_16_Cons: "take 16 (x # xs) = x # take 15 xs"
  by (simp add: take_Cons')

lemma sync_scan_append:
  "sync_scan 0 (xs @ take 15 ys) = None \<Longrightarrow> sync_scan k (xs @ ys) = sync_scan (k + length xs) ys"
proof (induction xs arbitrary: k)
  case Nil
  then show ?case by simp
next
  case (Cons x xs)
  from Cons.prems have w: "take 16 (x # xs @ take 15 ys) \<noteq> sync_cells"
    and q: "sync_scan (Suc 0) (xs @ take 15 ys) = None"
    by (simp_all split: if_splits)
  have "take 15 (xs @ ys) = take 15 (xs @ take 15 ys)" by (rule take_append_take)
  then have "take 16 (x # xs @ ys) = take 16 (x # xs @ take 15 ys)"
    by (simp only: take_16_Cons)
  with w have w': "take 16 (x # xs @ ys) \<noteq> sync_cells" by (simp only: append_Cons) simp
  from q have "sync_scan 0 (xs @ take 15 ys) = None" by (rule sync_scan_None_shift)
  from Cons.IH [OF this, of "Suc k"] w' show ?case by simp
qed

lemma sync_scan_prefix: "sync_scan k (xs @ ys) = None \<Longrightarrow> sync_scan k xs = None"
proof (induction xs arbitrary: k)
  case Nil
  then show ?case by simp
next
  case (Cons x xs)
  from Cons.prems have w: "take 16 (x # xs @ ys) \<noteq> sync_cells"
    and q: "sync_scan (Suc k) (xs @ ys) = None"
    by (simp_all split: if_splits)
  have "take 16 (x # xs) \<noteq> sync_cells"
  proof
    assume a: "take 16 (x # xs) = sync_cells"
    then have "length (take 16 (x # xs)) = 16" by (simp only: length_sync_cells)
    then have "16 \<le> length (x # xs)" by simp
    then have "take 16 (x # xs @ ys) = take 16 (x # xs)" by simp
    with a w show False by simp
  qed
  with Cons.IH [OF q] show ?case by simp
qed

lemma sync_scan_found: "sync_scan k (sync_cells @ rest) = Some k"
  by (simp add: sync_cells_eq)

lemma byte_bits_0: "byte_bits 0 = [False, False, False, False, False, False, False, False]"
  by (simp add: byte_bits_def upt_rec)

lemma sync_scan_gap:
  "sync_scan k (mfm_bytes p (bs @ [0, 0]) @ sync_cells @ rest) = Some (k + 16 * (length bs + 2))"
proof -
  let ?X = "mfm_bytes p (bs @ [0])"
  let ?Z = "mfm_bytes False [0]"
  have split: "mfm_bytes p (bs @ [0, 0]) = ?X @ ?Z"
    using mfm_bytes_append [of p "bs @ [0]" "[0]"] by simp
  have "sync_scan 0 (mfm_bytes p (bs @ [0, 0])) = None"
    by (simp only: mfm_bytes_cells mfm_cells_quiet)
  then have "sync_scan 0 (?X @ ?Z) = None" by (simp only: split)
  moreover have "?X @ ?Z = (?X @ take 15 (?Z @ sync_cells @ rest)) @ drop 15 ?Z"
    by (simp add: byte_bits_0)
  ultimately have q1: "sync_scan 0 (?X @ take 15 (?Z @ sync_cells @ rest)) = None"
    using sync_scan_prefix by metis
  have q2: "sync_scan 0 (?Z @ take 15 (sync_cells @ rest)) = None"
    by (simp add: byte_bits_0 sync_cells_eq)
  have "sync_scan k (mfm_bytes p (bs @ [0, 0]) @ sync_cells @ rest) =
      sync_scan k (?X @ (?Z @ sync_cells @ rest))"
    by (simp only: split append_assoc)
  also have "\<dots> = sync_scan (k + length ?X) (?Z @ sync_cells @ rest)"
    by (rule sync_scan_append [OF q1])
  also have "\<dots> = sync_scan (k + length ?X + length ?Z) (sync_cells @ rest)"
    by (rule sync_scan_append [OF q2])
  also have "\<dots> = Some (k + length ?X + length ?Z)"
    by (rule sync_scan_found)
  finally show ?thesis by simp
qed

lemma sync_scan_take:
  "sync_scan k cells = Some j \<Longrightarrow> j - k + 16 \<le> w \<Longrightarrow> sync_scan k (take w cells) = Some j"
proof (induction cells arbitrary: k w)
  case Nil
  then show ?case by simp
next
  case (Cons c cells)
  show ?case
  proof (cases "take 16 (c # cells) = sync_cells")
    case True
    with Cons.prems have "j = k" by simp
    with Cons.prems have "16 \<le> w" by simp
    then obtain v where w: "w = Suc v" and "15 \<le> v" by (cases w) auto
    then have "take 16 (take w (c # cells)) = take 16 (c # cells)" by (simp add: min_def)
    with True w \<open>j = k\<close> show ?thesis by simp
  next
    case False
    with Cons.prems have s: "sync_scan (Suc k) cells = Some j" by simp
    then have "Suc k \<le> j" by (subst (asm) sync_scan_shift) auto
    with Cons.prems obtain v where w: "w = Suc v" and v: "j - Suc k + 16 \<le> v"
      by (cases w) auto
    have "take 16 (c # take v cells) \<noteq> sync_cells"
    proof
      assume a: "take 16 (c # take v cells) = sync_cells"
      then have "length (take 16 (c # take v cells)) = 16" by (simp only: length_sync_cells)
      moreover have "take 16 (c # take v cells) = take (min 16 (Suc v)) (c # cells)"
        by (simp add: min_def)
      moreover have "16 \<le> v" using v by simp
      ultimately have "take 16 (c # take v cells) = take 16 (c # cells)" by (simp add: min_def)
      with a False show False by simp
    qed
    with Cons.IH [OF s v] w show ?thesis by simp
  qed
qed

lemma fold_put_byte:
  "fold put_byte bs e =
     e\<lparr>out_cells := out_cells e @ mfm_bytes (last_bit e) bs,
       last_bit := (if bs = [] then last_bit e else bit (last bs) 0),
       crc_acc := (\<lambda>i. if i \<in> set (crc_open e) then fold crc_byte bs (crc_acc e i)
                       else crc_acc e i)\<rparr>"
proof (induction bs arbitrary: e)
  case Nil
  then show ?case by (simp cong: if_cong)
next
  case (Cons b bs)
  have pb: "put_byte b e =
      e\<lparr>out_cells := out_cells e @ mfm_cells (last_bit e) (byte_bits b),
        last_bit := bit b 0,
        crc_acc := (\<lambda>i. if i \<in> set (crc_open e) then crc_byte b (crc_acc e i) else crc_acc e i)\<rparr>"
    by (simp add: put_byte_def)
  have "fold put_byte (b # bs) e = fold put_byte bs (put_byte b e)" by simp
  also have "\<dots> = (put_byte b e)
     \<lparr>out_cells := out_cells (put_byte b e) @ mfm_bytes (last_bit (put_byte b e)) bs,
       last_bit := (if bs = [] then last_bit (put_byte b e) else bit (last bs) 0),
       crc_acc := (\<lambda>i. if i \<in> set (crc_open (put_byte b e))
                       then fold crc_byte bs (crc_acc (put_byte b e) i)
                       else crc_acc (put_byte b e) i)\<rparr>"
    by (rule Cons.IH)
  also have "\<dots> =
     e\<lparr>out_cells := out_cells e @ mfm_bytes (last_bit e) (b # bs),
       last_bit := (if b # bs = [] then last_bit e else bit (last (b # bs)) 0),
       crc_acc := (\<lambda>i. if i \<in> set (crc_open e) then fold crc_byte (b # bs) (crc_acc e i)
                       else crc_acc e i)\<rparr>"
    by (simp add: pb fun_eq_iff cong: if_cong)
  finally show ?case .
qed


lemma esq_body:
  "loop_body esq_6_desc =
     [D2 CRC_CCITT_START 1, D3 RAW 0x4489 3, D3 MFM 0xfe 1, D1 TRACK_ID, D1 HEAD_ID,
      D1 SECTOR_ID, D1 SIZE_ID, D2 CRC_END 1, D2 CRC 1, D3 MFM 0x4e 22, D3 MFM 0x00 12,
      D2 CRC_CCITT_START 2, D3 RAW 0x4489 3, D3 MFM 0xfb 1, D2 SECTOR_DATA (- 1),
      D2 CRC_END 2, D2 CRC 2, D3 MFM 0x4e 84, D3 MFM 0x00 12]"
  by (simp add: esq_6_desc_def loop_body_def before_type_def after_type_def D1_def D2_def D3_def)

lemma esq_pre:
  "before_type SECTOR_LOOP_START esq_6_desc =
     [D3 MFM 0x4e 80, D3 MFM 0x00 12, D3 RAW 0x5224 3, D3 MFM 0xfc 1, D3 MFM 0x4e 50,
      D3 MFM 0x00 12]"
  by (simp add: esq_6_desc_def before_type_def D1_def D2_def D3_def)

lemma esq_post:
  "after_type SECTOR_LOOP_END esq_6_desc = [D3 MFM 0x4e 170, D1 END]"
  by (simp add: esq_6_desc_def after_type_def D1_def D2_def D3_def)

lemma esq_indices: "loop_indices esq_6_desc = [0, 1, 2, 3, 4, 5]"
  by (simp add: esq_6_desc_def loop_indices_def D1_def D2_def D3_def upto.simps)

lemma step_MFM:
  "step t h sp (D3 MFM v n) e =
     e\<lparr>out_cells := out_cells e @ mfm_bytes (last_bit e) (replicate (nat n) (of_int v)),
       last_bit := (if nat n = 0 then last_bit e else bit (of_int v :: byte) 0),
       crc_acc := (\<lambda>i. if i \<in> set (crc_open e)
                       then fold crc_byte (replicate (nat n) (of_int v)) (crc_acc e i)
                       else crc_acc e i)\<rparr>"
  by (simp add: step_def D3_def fold_put_byte del: fold_replicate cong: if_cong)

lemma step_byte:
  "put_byte b e =
     e\<lparr>out_cells := out_cells e @ mfm_bytes (last_bit e) [b],
       last_bit := bit b 0,
       crc_acc := (\<lambda>i. if i \<in> set (crc_open e) then fold crc_byte [b] (crc_acc e i)
                       else crc_acc e i)\<rparr>"
  by (simp add: put_byte_def cong: if_cong)

lemma step_ids:
  "step t h sp (D1 TRACK_ID) e = put_byte (of_int t) e"
  "step t h sp (D1 HEAD_ID) e = put_byte (of_int h) e"
  "step t h sp (D1 SECTOR_ID) e = put_byte (of_int (sp_sector_id sp)) e"
  "step t h sp (D1 SIZE_ID) e = put_byte (size_code (sp_size sp)) e"
  by (simp_all add: step_def D1_def D3_def)

lemma step_DATA:
  "step t h sp (D2 SECTOR_DATA (- 1)) e =
     e\<lparr>out_cells := out_cells e @ mfm_bytes (last_bit e) (sp_data sp),
       last_bit := (if sp_data sp = [] then last_bit e else bit (last (sp_data sp)) 0),
       crc_acc := (\<lambda>i. if i \<in> set (crc_open e) then fold crc_byte (sp_data sp) (crc_acc e i)
                       else crc_acc e i)\<rparr>"
  by (simp add: step_def D2_def D3_def fold_put_byte cong: if_cong)

lemma step_CRC_START:
  "step t h sp (D2 CRC_CCITT_START i) e =
     e\<lparr>crc_open := i # crc_open e, crc_acc := (crc_acc e)(i := 0xffff)\<rparr>"
  by (simp add: step_def D2_def D3_def)

lemma step_CRC_END:
  "step t h sp (D2 CRC_END i) e = e\<lparr>crc_open := removeAll i (crc_open e)\<rparr>"
  by (simp add: step_def D2_def D3_def)

lemma step_CRC:
  "step t h sp (D2 CRC i) e =
     put_byte (crc_lo (crc_acc e i)) (put_byte (crc_hi (crc_acc e i)) e)"
  by (simp add: step_def D2_def D3_def)

lemma step_RAW3:
  "step t h sp (D3 RAW v 3) e =
     e\<lparr>out_cells := out_cells e @ word16_bits (of_int v) @ word16_bits (of_int v) @ word16_bits (of_int v),
       last_bit := bit (of_int v :: 16 word) 0,
       crc_acc := (\<lambda>i. if i \<in> set (crc_open e)
                       then fold crc_byte (replicate 3 (raw_byte (of_int v))) (crc_acc e i)
                       else crc_acc e i)\<rparr>"
  by (simp add: step_def D3_def put_raw_def numeral_3_eq_3 fun_eq_iff del: fold_replicate cong: if_cong)

lemma step_none:
  "step t h sp (D1 END) e = e"
  by (simp add: step_def D1_def D3_def)

lemma bit0_consts:
  "bit (0x4e :: byte) 0 = False" "bit (0 :: byte) 0 = False" "bit (0xfe :: byte) 0 = False"
  "bit (0xfb :: byte) 0 = True" "bit (0xfc :: byte) 0 = False"
  "bit (0x4489 :: 16 word) 0 = True" "bit (0x5224 :: 16 word) 0 = False"
  by simp_all

lemma last_replicate_num [simp]: "last (replicate (numeral n) x) = x"
  by (simp add: numeral_eq_Suc)

lemma mfm_bytes_Cons:
  "bs \<noteq> [] \<Longrightarrow> mfm_bytes p (b # bs) = mfm_bytes p [b] @ mfm_bytes (bit b 0) bs"
  by simp

lemma body_run:
  assumes "crc_open e = []"
  shows "fold (step t h sp) (loop_body esq_6_desc) e =
     e\<lparr>out_cells := out_cells e @ sector_cells t h sp,
       last_bit := False,
       crc_open := [],
       crc_acc := (crc_acc e)(1 := id_crc t h sp, 2 := data_crc sp)\<rparr>"
  using assms
  apply (simp only: esq_body fold_simps o_apply)
  apply (simp add: step_MFM step_ids step_DATA step_CRC_START step_CRC_END step_CRC step_RAW3
      step_byte bit0_consts mfm_bytes_append fun_eq_iff
      del: fold_replicate mfm_bytes.simps(2) cong: if_cong)
  apply (simp add: bit0_consts mfm_bytes_append mfm_bytes_Cons fun_eq_iff
      sector_cells_def sector_head_def sync3_def gap2_def gap3_def id_crc_def data_crc_def
      id_field_def crc_ccitt_def sync_byte_def sync_cells_def
      del: fold_replicate mfm_bytes.simps(2) cong: if_cong)
  done


lemma pre_run:
  "fold (step t h sp) (before_type SECTOR_LOOP_START esq_6_desc)
     \<lparr>out_cells = [], last_bit = False, crc_open = [], crc_acc = acc\<rparr> =
   \<lparr>out_cells = pre_cells, last_bit = False, crc_open = [], crc_acc = acc\<rparr>"
  apply (simp only: esq_pre fold_simps o_apply)
  apply (simp add: step_MFM step_RAW3 bit0_consts mfm_bytes_append
      del: fold_replicate mfm_bytes.simps(2) cong: if_cong)
  apply (simp add: pre_cells_def bit0_consts mfm_bytes_append mfm_bytes_Cons
      del: fold_replicate mfm_bytes.simps(2) cong: if_cong)
  done

lemma post_run:
  "fold (step t h sp) (after_type SECTOR_LOOP_END esq_6_desc) e =
     e\<lparr>out_cells := out_cells e @ mfm_bytes (last_bit e) (replicate 170 0x4e),
       last_bit := False,
       crc_acc := (\<lambda>i. if i \<in> set (crc_open e)
                       then fold crc_byte (replicate 170 0x4e) (crc_acc e i)
                       else crc_acc e i)\<rparr>"
  apply (simp only: esq_post fold_simps o_apply)
  apply (simp add: step_MFM step_none bit0_consts del: fold_replicate cong: if_cong)
  done

lemma encode_esq:
  "encode esq_6_desc [s0, s1, s2, s3, s4, s5] t h =
     pre_cells @ sector_cells t h s0 @ sector_cells t h s1 @ sector_cells t h s2 @
     sector_cells t h s3 @ sector_cells t h s4 @ sector_cells t h s5 @ post_cells"
  by (simp add: encode_def esq_indices pre_run body_run post_run post_cells_def Let_def)

declare skip_syncs.simps [simp del] decode_from.simps [simp del]

lemma read_bytes_mfm: "read_bytes (length bs) (mfm_bytes p bs @ rest) = Some (bs, rest)"
proof (induction bs arbitrary: p)
  case Nil
  then show ?case by simp
next
  case (Cons b bs)
  have "data_bits (mfm_cells p (byte_bits b)) = byte_bits b"
    using data_bits_mfm_cells [of p "byte_bits b" "[]"] by simp
  then show ?case by (simp add: Cons.IH)
qed

lemma read_bytes_mfm_n:
  "length bs = n \<Longrightarrow> read_bytes n (mfm_bytes p bs @ rest) = Some (bs, rest)"
  using read_bytes_mfm [of bs p rest] by simp

lemma skip_syncs_sync: "skip_syncs (sync_cells @ rest) = skip_syncs rest"
  by (subst skip_syncs.simps) (simp add: length_sync_cells)

lemma skip_syncs_mfm: "skip_syncs (mfm_bytes p (b # bs) @ rest) = mfm_bytes p (b # bs) @ rest"
proof -
  have "take 16 (mfm_bytes p (b # bs) @ rest) = take 16 (mfm_cells p (byte_bits b))"
    by simp
  then have "take 16 (mfm_bytes p (b # bs) @ rest) \<noteq> sync_cells"
    by (simp only: mfm_even_window not_False_eq_True)
  then show ?thesis by (subst skip_syncs.simps) simp
qed

lemma sync_scan_mfm_skip:
  "sync_scan k (mfm_bytes p bs @ mfm_bytes (if bs = [] then p else bit (last bs) 0) [b] @ rest) =
     sync_scan (k + 16 * length bs)
       (mfm_bytes (if bs = [] then p else bit (last bs) 0) [b] @ rest)"
proof -
  let ?q = "if bs = [] then p else bit (last bs) 0"
  have "sync_scan 0 (mfm_bytes p (bs @ [b])) = None"
    by (simp only: mfm_bytes_cells mfm_cells_quiet)
  moreover have "mfm_bytes p (bs @ [b]) =
      (mfm_bytes p bs @ take 15 (mfm_bytes ?q [b] @ rest)) @ drop 15 (mfm_bytes ?q [b])"
    by (simp add: mfm_bytes_append)
  ultimately have "sync_scan 0 (mfm_bytes p bs @ take 15 (mfm_bytes ?q [b] @ rest)) = None"
    using sync_scan_prefix by metis
  from sync_scan_append [OF this, of k] show ?thesis by simp
qed

lemma word16_bits_5224:
  "word16_bits 0x5224 = [False, True, False, True, False, False, True, False,
                         False, False, True, False, False, True, False, False]"
  by (simp add: word16_bits_def upt_rec bit_numeral_rec)

lemma byte_bits_fc: "byte_bits 0xfc = [True, True, True, True, True, True, False, False]"
  by (simp add: byte_bits_def upt_rec bit_numeral_rec)

lemma length_pre_cells: "length pre_cells = 2528"
  by (simp add: pre_cells_def word16_bits_5224)

lemma sync_scan_pre: "sync_scan 0 (pre_cells @ sync_cells @ rest) = Some 2528"
proof -
  let ?M1 = "mfm_bytes False (replicate 80 0x4e @ replicate 11 0)"
  let ?Z = "mfm_bytes False [0]"
  let ?R = "word16_bits 0x5224 @ word16_bits 0x5224 @ word16_bits 0x5224"
  let ?M2 = "mfm_bytes False ((0xfc # replicate 50 0x4e @ replicate 10 0) @ [0, 0])"
  have r12: "replicate 12 (0::byte) = replicate 11 0 @ [0]" "replicate 12 (0::byte) = replicate 10 0 @ [0, 0]"
    by (simp_all add: numeral_eq_Suc replicate_append_same)
  have m1: "mfm_bytes False (replicate 80 0x4e @ replicate 12 0) = ?M1 @ ?Z"
    by (simp add: r12(1) mfm_bytes_append del: mfm_bytes.simps(2))
  have m2: "mfm_bytes False (0xfc # replicate 50 0x4e @ replicate 12 0) = ?M2"
    by (simp only: r12(2) append_Cons append_assoc)
  have pre: "pre_cells = ?M1 @ ?Z @ ?R @ ?M2"
    by (simp only: pre_cells_def m1 m2 append_assoc)
  have a: "sync_scan 0 (?M1 @ ?Z @ (?R @ ?M2 @ sync_cells @ rest)) =
      sync_scan (0 + 16 * length (replicate 80 (0x4e::byte) @ replicate 11 0))
        (?Z @ (?R @ ?M2 @ sync_cells @ rest))"
    using sync_scan_mfm_skip [of 0 False "replicate 80 0x4e @ replicate 11 0" 0
        "?R @ ?M2 @ sync_cells @ rest"]
    by simp
  have q: "sync_scan 0 ((?Z @ ?R) @ take 15 (?M2 @ sync_cells @ rest)) = None"
    by (simp add: byte_bits_0 byte_bits_fc word16_bits_5224 sync_cells_eq)
  have b: "sync_scan 1456 ((?Z @ ?R) @ (?M2 @ sync_cells @ rest)) =
      sync_scan (1456 + length (?Z @ ?R)) (?M2 @ sync_cells @ rest)"
    by (rule sync_scan_append [OF q])
  have c: "sync_scan 1520 (?M2 @ sync_cells @ rest) =
      Some (1520 + 16 * (length (0xfc # replicate 50 (0x4e::byte) @ replicate 10 0) + 2))"
    by (rule sync_scan_gap)
  have "sync_scan 0 (pre_cells @ sync_cells @ rest) =
      sync_scan 0 (?M1 @ ?Z @ (?R @ ?M2 @ sync_cells @ rest))"
    by (simp only: pre append_assoc)
  also have "\<dots> = sync_scan 1456 ((?Z @ ?R) @ (?M2 @ sync_cells @ rest))"
    using a by (simp only: append_assoc) simp
  also have "\<dots> = sync_scan 1520 (?M2 @ sync_cells @ rest)"
    using b by (simp add: word16_bits_5224)
  also have "\<dots> = Some 2528"
    using c by simp
  finally show ?thesis .
qed

lemma gap2_split: "gap2 = (replicate 22 0x4e @ replicate 10 0) @ [0, 0]"
  by (simp add: gap2_def numeral_eq_Suc replicate_append_same)

lemma gap3_split: "gap3 = (replicate 84 0x4e @ replicate 10 0) @ [0, 0]"
  by (simp add: gap3_def numeral_eq_Suc replicate_append_same)

lemma sync_scan_gap2: "sync_scan 0 (mfm_bytes p gap2 @ sync_cells @ rest) = Some 544"
  using sync_scan_gap [of 0 p "replicate 22 0x4e @ replicate 10 0" rest]
  by (simp add: gap2_split)

lemma sync_scan_gap3: "sync_scan 0 (mfm_bytes p gap3 @ sync_cells @ rest) = Some 1536"
  using sync_scan_gap [of 0 p "replicate 84 0x4e @ replicate 10 0" rest]
  by (simp add: gap3_split)

lemma decode_data_ok:
  assumes "length data = n"
  shows "decode_data n idf
           (mfm_bytes p gap2 @ sync3 @
            mfm_bytes True (0xfb # data @ [crc_hi (crc_ccitt (replicate 3 sync_byte @ 0xfb # data)),
                                             crc_lo (crc_ccitt (replicate 3 sync_byte @ 0xfb # data))]) @
            rest) =
         Some (\<lparr>d_status = Recovered, d_track = idf ! 1, d_head = idf ! 2, d_sector_id = idf ! 3,
                 d_size_code = idf ! 4, d_data = data\<rparr>, rest)"
proof -
  let ?c = "crc_ccitt (replicate 3 sync_byte @ 0xfb # data)"
  let ?df = "0xfb # data @ [crc_hi ?c, crc_lo ?c]"
  let ?cells = "mfm_bytes p gap2 @ sync3 @ mfm_bytes True ?df @ rest"
  have s: "sync_scan 0 ?cells = Some 544"
    using sync_scan_gap2 [of p] by (simp add: sync3_def)
  have w: "sync_scan 0 (take data_window ?cells) = Some 544"
    by (rule sync_scan_take [OF s]) (simp add: data_window_def)
  have len: "length (mfm_bytes p gap2) = 544" by (simp add: gap2_def)
  have d: "drop (544 + 16) ?cells = sync_cells @ sync_cells @ mfm_bytes True ?df @ rest"
    using len by (simp add: sync3_def length_sync_cells)
  have sk: "skip_syncs (drop (544 + 16) ?cells) = mfm_bytes True ?df @ rest"
    unfolding d by (simp only: skip_syncs_sync skip_syncs_mfm)
  have rd: "read_bytes (1 + n + 2) (mfm_bytes True ?df @ rest) = Some (?df, rest)"
    by (rule read_bytes_mfm_n) (simp add: assms)
  have n1: "?df ! (1 + n) = crc_hi ?c" and n2: "?df ! (2 + n) = crc_lo ?c"
    using assms by (simp_all add: nth_append)
  have tk: "take (1 + n) ?df = 0xfb # data" and dt: "take n (drop 1 ?df) = data"
    using assms by simp_all
  show ?thesis
    by (simp only: decode_data_def w sk rd option.case prod.case n1 n2 tk dt field_crc_ok_def
        nth_Cons_0 if_True simp_thms)
qed

lemma unat_byte_of_nat: "i < 256 \<Longrightarrow> unat (of_nat i :: byte) = i"
  by (simp add: unat_of_nat)

lemma decode_sector_ok:
  assumes id: "sp_sector_id sp = int i" and i: "i < length sizes" "i < 256"
    and len: "length (sp_data sp) = sizes ! i"
  shows "decode_sector sizes
           (sync_cells @ sync_cells @
            mfm_bytes True (id_field t h sp @
                            [crc_hi (id_crc t h sp), crc_lo (id_crc t h sp)] @ gap2) @
            sync3 @
            mfm_bytes True (0xfb # sp_data sp @ [crc_hi (data_crc sp), crc_lo (data_crc sp)]) @
            rest) =
         (Some (i, recovered t h sp), rest)"
proof -
  let ?idf = "id_field t h sp @ [crc_hi (id_crc t h sp), crc_lo (id_crc t h sp)]"
  let ?p = "bit (crc_lo (id_crc t h sp)) 0"
  let ?tail = "sync3 @
      mfm_bytes True (0xfb # sp_data sp @ [crc_hi (data_crc sp), crc_lo (data_crc sp)]) @ rest"
  have idf: "?idf = [0xfe, of_int t, of_int h, of_int (sp_sector_id sp), size_code (sp_size sp),
      crc_hi (id_crc t h sp), crc_lo (id_crc t h sp)]"
    by (simp add: id_field_def)
  let ?all = "id_field t h sp @ [crc_hi (id_crc t h sp), crc_lo (id_crc t h sp)] @ gap2"
  have split: "mfm_bytes True ?all = mfm_bytes True ?idf @ mfm_bytes ?p gap2"
    by (simp add: mfm_bytes_append id_field_def)
  have cons: "?all = 0xfe # tl ?all"
    by (simp add: id_field_def)
  have sk: "skip_syncs (sync_cells @ sync_cells @ mfm_bytes True ?all @ ?tail) =
      mfm_bytes True ?idf @ mfm_bytes ?p gap2 @ ?tail"
  proof -
    have "skip_syncs (sync_cells @ sync_cells @ mfm_bytes True ?all @ ?tail) =
        skip_syncs (mfm_bytes True ?all @ ?tail)"
      by (simp only: skip_syncs_sync)
    also have "\<dots> = skip_syncs (mfm_bytes True (0xfe # tl ?all) @ ?tail)"
      using cons by simp
    also have "\<dots> = mfm_bytes True (0xfe # tl ?all) @ ?tail"
      by (rule skip_syncs_mfm)
    also have "\<dots> = mfm_bytes True ?all @ ?tail"
      using cons by simp
    also have "\<dots> = mfm_bytes True ?idf @ mfm_bytes ?p gap2 @ ?tail"
      by (simp only: split append_assoc)
    finally show ?thesis .
  qed
  have rd: "read_bytes 7 (mfm_bytes True ?idf @ mfm_bytes ?p gap2 @ ?tail) =
      Some (?idf, mfm_bytes ?p gap2 @ ?tail)"
    by (rule read_bytes_mfm_n) (simp add: id_field_def)
  have sid: "unat (?idf ! 3) = i"
    using i by (simp add: idf id unat_byte_of_nat)
  have crc: "field_crc_ok (take 5 ?idf) (?idf ! 5) (?idf ! 6)"
    by (simp add: idf field_crc_ok_def id_crc_def id_field_def)
  have mark: "?idf ! 0 = 0xfe" by (simp add: idf)
  have dd: "decode_data (sizes ! i) ?idf (mfm_bytes ?p gap2 @ ?tail) =
      Some (\<lparr>d_status = Recovered, d_track = ?idf ! 1, d_head = ?idf ! 2, d_sector_id = ?idf ! 3,
              d_size_code = ?idf ! 4, d_data = sp_data sp\<rparr>, rest)"
    using decode_data_ok [OF len, of ?idf ?p rest] by (simp add: data_crc_def)
  have rec: "\<lparr>d_status = Recovered, d_track = ?idf ! 1, d_head = ?idf ! 2, d_sector_id = ?idf ! 3,
              d_size_code = ?idf ! 4, d_data = sp_data sp\<rparr> = recovered t h sp"
    by (simp add: idf recovered_def)
  show ?thesis
    by (simp only: decode_sector_def sk rd option.case prod.case mark crc sid i dd rec
        simp_thms if_True)
qed

lemma decode_from_step:
  assumes lead: "\<And>x. sync_scan 0 (gap @ sync_cells @ x) = Some (length gap)"
    and id: "sp_sector_id sp = int i" and i: "i < length sizes" "i < 256"
    and len: "length (sp_data sp) = sizes ! i"
  shows "decode_from sizes (gap @ sector_head t h sp @ rest) res =
         decode_from sizes rest (res[i := recovered t h sp])"
proof -
  let ?body = "sync_cells @ sync_cells @
      mfm_bytes True (id_field t h sp @
                      [crc_hi (id_crc t h sp), crc_lo (id_crc t h sp)] @ gap2) @
      sync3 @
      mfm_bytes True (0xfb # sp_data sp @ [crc_hi (data_crc sp), crc_lo (data_crc sp)]) @
      rest"
  have cells: "gap @ sector_head t h sp @ rest = gap @ sync_cells @ ?body"
    by (simp add: sector_head_def sync3_def)
  have scan: "sync_scan 0 (gap @ sync_cells @ ?body) = Some (length gap)"
    by (rule lead)
  have drop: "drop (length gap + 16) (gap @ sync_cells @ ?body) = ?body"
    by (simp add: length_sync_cells)
  have ds: "decode_sector sizes ?body = (Some (i, recovered t h sp), rest)"
    by (rule decode_sector_ok [OF id i len])
  have shorter: "length rest < length (gap @ sync_cells @ ?body)"
    by (simp add: length_sync_cells)
  show ?thesis
    unfolding cells
    by (subst decode_from.simps)
       (simp only: scan drop ds option.case prod.case Let_def shorter if_True)
qed

lemma decode_from_quiet: "sync_scan 0 cells = None \<Longrightarrow> decode_from sizes cells res = res"
  by (subst decode_from.simps) simp

lemma tail_quiet: "sync_scan 0 (mfm_bytes p gap3 @ post_cells) = None"
proof -
  have "mfm_bytes p gap3 @ post_cells = mfm_bytes p (gap3 @ replicate 170 0x4e)"
    by (simp add: mfm_bytes_append post_cells_def gap3_def)
  then show ?thesis by (simp only: mfm_bytes_cells mfm_cells_quiet)
qed

lemma sector_cells_split:
  "sector_cells t h sp @ rest =
     sector_head t h sp @ mfm_bytes (bit (crc_lo (data_crc sp)) 0) gap3 @ rest"
  by (simp add: sector_cells_def)

lemma lead_pre: "sync_scan 0 (pre_cells @ sync_cells @ x) = Some (length pre_cells)"
  by (simp only: sync_scan_pre length_pre_cells)

lemma lead_gap3: "sync_scan 0 (mfm_bytes p gap3 @ sync_cells @ x) = Some (length (mfm_bytes p gap3))"
proof -
  have "length (mfm_bytes p gap3) = 1536" by (simp add: gap3_def)
  then show ?thesis by (simp only: sync_scan_gap3)
qed

lemma track_round_trip:
  assumes ids: "map sp_sector_id sectors = [0, 1, 2, 3, 4, 5]"
    and lens: "map (\<lambda>sp. length (sp_data sp)) sectors = esq_sizes"
  shows "decode (encode esq_6_desc sectors t h) 6 esq_sizes = map (recovered t h) sectors"
proof -
  from ids obtain s0 s1 s2 s3 s4 s5 where sectors: "sectors = [s0, s1, s2, s3, s4, s5]"
    by (auto simp: map_eq_Cons_conv)
  from ids have id: "sp_sector_id s0 = int 0" "sp_sector_id s1 = int 1" "sp_sector_id s2 = int 2"
    "sp_sector_id s3 = int 3" "sp_sector_id s4 = int 4" "sp_sector_id s5 = int 5"
    by (simp_all add: sectors)
  from lens have len: "length (sp_data s0) = esq_sizes ! 0" "length (sp_data s1) = esq_sizes ! 1"
    "length (sp_data s2) = esq_sizes ! 2" "length (sp_data s3) = esq_sizes ! 3"
    "length (sp_data s4) = esq_sizes ! 4" "length (sp_data s5) = esq_sizes ! 5"
    by (simp_all add: sectors esq_sizes_def)
  have n: "0 < length esq_sizes" "1 < length esq_sizes" "2 < length esq_sizes"
    "3 < length esq_sizes" "4 < length esq_sizes" "5 < length esq_sizes"
    by (simp_all add: esq_sizes_def)
  let ?g = "\<lambda>sp. mfm_bytes (bit (crc_lo (data_crc sp)) 0) gap3"
  let ?r0 = "replicate 6 unresolved"
  have "decode (encode esq_6_desc sectors t h) 6 esq_sizes =
      decode_from esq_sizes
        (pre_cells @ sector_head t h s0 @ ?g s0 @ sector_head t h s1 @ ?g s1 @
         sector_head t h s2 @ ?g s2 @ sector_head t h s3 @ ?g s3 @
         sector_head t h s4 @ ?g s4 @ sector_head t h s5 @ ?g s5 @ post_cells) ?r0"
    by (simp only: decode_def sectors encode_esq sector_cells_split)
  also have "\<dots> = decode_from esq_sizes
        (?g s0 @ sector_head t h s1 @ ?g s1 @
         sector_head t h s2 @ ?g s2 @ sector_head t h s3 @ ?g s3 @
         sector_head t h s4 @ ?g s4 @ sector_head t h s5 @ ?g s5 @ post_cells)
        (?r0[0 := recovered t h s0])"
    by (rule decode_from_step [OF lead_pre id(1) n(1) _ len(1)]) simp
  also have "\<dots> = decode_from esq_sizes
        (?g s1 @ sector_head t h s2 @ ?g s2 @ sector_head t h s3 @ ?g s3 @
         sector_head t h s4 @ ?g s4 @ sector_head t h s5 @ ?g s5 @ post_cells)
        (?r0[0 := recovered t h s0, 1 := recovered t h s1])"
    by (rule decode_from_step [OF lead_gap3 id(2) n(2) _ len(2)]) simp
  also have "\<dots> = decode_from esq_sizes
        (?g s2 @ sector_head t h s3 @ ?g s3 @
         sector_head t h s4 @ ?g s4 @ sector_head t h s5 @ ?g s5 @ post_cells)
        (?r0[0 := recovered t h s0, 1 := recovered t h s1, 2 := recovered t h s2])"
    by (rule decode_from_step [OF lead_gap3 id(3) n(3) _ len(3)]) simp
  also have "\<dots> = decode_from esq_sizes
        (?g s3 @ sector_head t h s4 @ ?g s4 @ sector_head t h s5 @ ?g s5 @ post_cells)
        (?r0[0 := recovered t h s0, 1 := recovered t h s1, 2 := recovered t h s2,
             3 := recovered t h s3])"
    by (rule decode_from_step [OF lead_gap3 id(4) n(4) _ len(4)]) simp
  also have "\<dots> = decode_from esq_sizes
        (?g s4 @ sector_head t h s5 @ ?g s5 @ post_cells)
        (?r0[0 := recovered t h s0, 1 := recovered t h s1, 2 := recovered t h s2,
             3 := recovered t h s3, 4 := recovered t h s4])"
    by (rule decode_from_step [OF lead_gap3 id(5) n(5) _ len(5)]) simp
  also have "\<dots> = decode_from esq_sizes (?g s5 @ post_cells)
        (?r0[0 := recovered t h s0, 1 := recovered t h s1, 2 := recovered t h s2,
             3 := recovered t h s3, 4 := recovered t h s4, 5 := recovered t h s5])"
    by (rule decode_from_step [OF lead_gap3 id(6) n(6) _ len(6)]) simp
  also have "\<dots> = ?r0[0 := recovered t h s0, 1 := recovered t h s1, 2 := recovered t h s2,
             3 := recovered t h s3, 4 := recovered t h s4, 5 := recovered t h s5]"
    by (rule decode_from_quiet [OF tail_quiet])
  also have "\<dots> = map (recovered t h) sectors"
    by (simp add: sectors numeral_eq_Suc)
  finally show ?thesis .
qed

lemma filter_by_index:
  "(\<forall>k < length cs. key (cs ! k) = int k) \<Longrightarrow> t < length cs \<Longrightarrow>
   filter (\<lambda>c. key c = int t) cs = [cs ! t]"
proof (induction cs arbitrary: t rule: rev_induct)
  case Nil
  then show ?case by simp
next
  case (snoc c cs)
  have keys: "\<forall>k < length cs. key (cs ! k) = int k"
  proof (intro allI impI)
    fix k assume "k < length cs"
    with snoc.prems(1) [rule_format, of k] show "key (cs ! k) = int k"
      by (simp add: nth_append)
  qed
  have last: "key c = int (length cs)"
    using snoc.prems(1) [rule_format, of "length cs"] by simp
  show ?case
  proof (cases "t < length cs")
    case True
    with snoc.IH [OF keys True] last show ?thesis by (simp add: nth_append)
  next
    case False
    with snoc.prems(2) have t: "t = length cs" by simp
    have "filter (\<lambda>c. key c = int t) cs = []"
    proof (rule filter_False, intro ballI)
      fix x assume "x \<in> set cs"
      then obtain k where "k < length cs" "x = cs ! k" by (auto simp: in_set_conv_nth)
      with keys t show "\<not> key x = int t" by simp
    qed
    with last t show ?thesis by simp
  qed
qed

lemma concat_chunks:
  "concat (map (\<lambda>t. take n (drop (t * n) xs)) [0..<k]) = take (k * n) xs"
proof (induction k)
  case 0
  then show ?case by simp
next
  case (Suc k)
  have "take (k * n) xs @ take n (drop (k * n) xs) = take (k * n + n) xs"
    by (simp add: take_add)
  with Suc show ?case by (simp add: add.commute)
qed

lemma concat_sector_payloads:
  "concat (map (sector_payload buf) (load_sectors 6)) = take 5632 buf"
proof -
  have a: "take 1024 buf @ take 1024 (drop 1024 buf) = take 2048 buf"
    using take_add [of 1024 1024 buf] by simp
  have b: "take 2048 buf @ take 1024 (drop 2048 buf) = take 3072 buf"
    using take_add [of 2048 1024 buf] by simp
  have c: "take 3072 buf @ take 1024 (drop 3072 buf) = take 4096 buf"
    using take_add [of 3072 1024 buf] by simp
  have d: "take 4096 buf @ take 1024 (drop 4096 buf) = take 5120 buf"
    using take_add [of 4096 1024 buf] by simp
  have e: "take 5120 buf @ take 512 (drop 5120 buf) = take 5632 buf"
    using take_add [of 5120 512 buf] by simp
  have "concat (map (sector_payload buf) (load_sectors 6)) =
      ((((take 1024 buf @ take 1024 (drop 1024 buf)) @ take 1024 (drop 2048 buf)) @
        take 1024 (drop 3072 buf)) @ take 1024 (drop 4096 buf)) @ take 512 (drop 5120 buf)"
    by (simp add: sector_payload_slices)
  then show ?thesis by (simp only: a b c d e)
qed

lemma fold_max_zeros:
  "\<forall>x\<in>set xs. x = (0::int) \<Longrightarrow> fold max xs a = (if xs = [] then a else max a 0)"
  by (induction xs arbitrary: a) (auto simp: max_def)


lemma sector_payload_buffer:
  "take 5632 buf = tr \<Longrightarrow>
   map (sector_payload buf) (load_sectors 6) = map (sector_payload tr) (load_sectors 6)"
proof -
  assume "take 5632 buf = tr"
  then have tr: "tr = take 5632 buf" by simp
  show ?thesis
    unfolding sector_payload_slices tr
    by (simp add: drop_take)
qed

lemma ram_track_read:
  assumes "length bytes = 450560" and "t < 80"
  shows "track_read (ram_read bytes) 1 t 0 = take 5632 (drop (t * 5632) bytes)"
    and "length (track_read (ram_read bytes) 1 t 0) = 5632"
proof -
  have lt: "t * 5632 < 2 ^ LENGTH(64)" using assms(2) by simp
  have "(int t * 1 + int 0) * int track_size = int (t * 5632)"
    by (simp add: track_size_def)
  then have "(of_int ((int t * 1 + int 0) * int track_size) :: 64 word) = of_nat (t * 5632)"
    by (simp only: of_int_of_nat_eq)
  moreover have "unat (of_nat (t * 5632) :: 64 word) = t * 5632"
    using lt by (simp only: unat_of_nat mod_less)
  ultimately have off: "unat (of_int ((int t * 1 + int 0) * int track_size) :: 64 word) = t * 5632"
    by (simp only:)
  have rd: "io_read_at (ram_read bytes) w n = (0, take n (drop (unat w) bytes))" for w n
    by (simp add: ram_read_def)
  show "track_read (ram_read bytes) 1 t 0 = take 5632 (drop (t * 5632) bytes)"
    unfolding track_read_def rd off by (simp add: track_size_def)
  then show "length (track_read (ram_read bytes) 1 t 0) = 5632"
    using assms by simp
qed

lemma list_all2_nth_right:
  "list_all2 R (map f [0..<n]) cs \<Longrightarrow> k < n \<Longrightarrow> R (f k) (cs ! k)"
  by (auto simp: list_all2_conv_all_nth)

lemma loaded_image:
  fixes bytes :: "byte list" and ff :: "32 word" and vs :: "32 word list" and stack :: "byte list"
  assumes len: "length bytes = 450560"
  defines "img \<equiv> l_image (snd (load (ram_read bytes) ff vs stack blank_image))"
  shows "length (generated img) = 80"
    and "t < 80 \<Longrightarrow> loaded_from (ram_read bytes) 1 (load_sectors 6) 6 (t, 0) (generated img ! t)"
proof -
  have fs: "find_size (ram_read bytes) = (80, 1, 6)"
    by (simp add: find_size_def ram_read_def failed_def len)
  from load_char(4) [OF fs, of ff vs stack blank_image]
  have l: "list_all2 (loaded_from (ram_read bytes) 1 (load_sectors 6) 6)
      (map (\<lambda>t. (t, 0)) [0..<80]) (generated img)"
    by (simp add: img_def blank_image_def track_heads_1)
  then show "length (generated img) = 80"
    by (auto dest: list_all2_lengthD)
  show "loaded_from (ram_read bytes) 1 (load_sectors 6) 6 (t, 0) (generated img ! t)" if "t < 80"
    using list_all2_nth_right [OF l that] .
qed

lemma loaded_track:
  fixes bytes :: "byte list" and ff :: "32 word" and vs :: "32 word list" and stack :: "byte list"
  assumes len: "length bytes = 450560" and t: "t < 80"
  defines "img \<equiv> l_image (snd (load (ram_read bytes) ff vs stack blank_image))"
  shows "extracted codec_ops img t 0 =
     map (sector_payload (take 5632 (drop (t * 5632) bytes))) (load_sectors 6)"
proof -
  let ?cs = "generated img"
  let ?c = "?cs ! t"
  let ?tr = "take 5632 (drop (t * 5632) bytes)"
  note li = loaded_image [OF len, where ff = ff and vs = vs and stack = stack, folded img_def]
  have n: "length ?cs = 80" by (rule li(1))
  have lf: "loaded_from (ram_read bytes) 1 (load_sectors 6) 6 (k, 0) (?cs ! k)" if "k < 80" for k
    using li(2) [OF that] .
  have keys: "\<forall>k < length ?cs. g_track (?cs ! k) = int k"
    using lf n by (simp add: loaded_from_def)
  have heads: "\<forall>c \<in> set ?cs. g_head c = 0"
  proof
    fix c assume "c \<in> set ?cs"
    then obtain k where "k < 80" "c = ?cs ! k" using n by (auto simp: in_set_conv_nth)
    with lf [of k] show "g_head c = 0" by (simp add: loaded_from_def)
  qed
  have "filter (\<lambda>c. g_track c = int t \<and> g_head c = 0) ?cs = filter (\<lambda>c. g_track c = int t) ?cs"
    using heads by (intro filter_cong) auto
  also have "\<dots> = [?c]"
    using filter_by_index [OF keys] t n by simp
  finally have flt: "filter (\<lambda>c. g_track c = int t \<and> g_head c = 0) ?cs = [?c]" .
  from lf [OF t] have c: "g_desc ?c = esq_6_desc" "g_sectors ?c = load_sectors 6"
    "g_sector_count ?c = 6"
    "take (length (track_read (ram_read bytes) 1 t 0)) (g_sectdata ?c) = track_read (ram_read bytes) 1 t 0"
    by (simp_all add: loaded_from_def)
  from c(4) have buf: "take 5632 (g_sectdata ?c) = ?tr"
    using ram_track_read [OF len t] by simp
  have cells: "track_cells img (int t) 0 = encode esq_6_desc (sector_specs ?c) (int t) 0"
    by (simp add: track_cells_def flt c(1))
  have six: "length (load_sectors 6) = 6" by (simp add: load_sectors_6)
  have specs: "sector_specs ?c =
      map (\<lambda>d. \<lparr>sp_sector_id = sector_id d, sp_size = size_s d,
                   sp_data = sector_payload (g_sectdata ?c) d\<rparr>) (load_sectors 6)"
    by (simp add: sector_specs_def c(2,3) six)
  have data: "map sp_data (sector_specs ?c) = map (sector_payload ?tr) (load_sectors 6)"
    using sector_payload_buffer [OF buf] by (simp add: specs comp_def)
  have ids: "map sp_sector_id (sector_specs ?c) = [0, 1, 2, 3, 4, 5]"
    by (simp add: specs comp_def load_sectors_6)
  have trlen: "length ?tr = 5632" using len t by simp
  have lens: "map (\<lambda>sp. length (sp_data sp)) (sector_specs ?c) = esq_sizes"
  proof -
    have "map (\<lambda>sp. length (sp_data sp)) (sector_specs ?c) = map length (map sp_data (sector_specs ?c))"
      by (simp add: comp_def)
    also have "\<dots> = esq_sizes"
      unfolding data sector_payload_slices using trlen by (simp add: esq_sizes_def)
    finally show ?thesis .
  qed
  have "extracted codec_ops img t 0 = map d_data (decode (track_cells img (int t) 0) 6 esq_sizes)"
    by (simp add: extracted_def codec_ops_def)
  also have "\<dots> = map d_data (map (recovered (int t) 0) (sector_specs ?c))"
    by (simp only: cells track_round_trip [OF ids lens])
  also have "\<dots> = map sp_data (sector_specs ?c)"
    by (simp add: recovered_def comp_def)
  finally show ?thesis by (simp only: data)
qed

lemma concat_map_nested:
  "concat (map f (concat (map g ts))) = concat (map (\<lambda>t. concat (map f (g t))) ts)"
  by (induction ts) auto

lemma positions_one_head:
  "positions n 1 m = concat (map (\<lambda>t. map (\<lambda>s. (t, 0, s)) [0..<m]) [0..<n])"
  by (simp add: positions_def)

lemma esq_sizes_expected: "s < 6 \<Longrightarrow> esq_sizes ! s = sector_expected_size s"
  using sector_lt_6_cases [of s] by (auto simp: esq_sizes_def sector_expected_size_def)

lemma length_encode_esq:
  assumes "map (\<lambda>sp. length (sp_data sp)) sectors = esq_sizes"
  shows "length (encode esq_6_desc sectors t h) = 109376"
proof -
  from assms obtain s0 s1 s2 s3 s4 s5 where sectors: "sectors = [s0, s1, s2, s3, s4, s5]"
    by (auto simp: map_eq_Cons_conv esq_sizes_def)
  from assms have "length (sp_data s0) = 1024" "length (sp_data s1) = 1024"
    "length (sp_data s2) = 1024" "length (sp_data s3) = 1024" "length (sp_data s4) = 1024"
    "length (sp_data s5) = 512"
    by (simp_all add: sectors esq_sizes_def)
  then show ?thesis
    by (simp add: sectors encode_esq length_pre_cells sector_cells_def sector_head_def sync3_def
        length_sync_cells id_field_def gap2_def gap3_def post_cells_def)
qed

lemma container_round_trip:
  fixes bytes :: "byte list" and ff :: "32 word" and vs :: "32 word list" and stack :: "byte list"
  assumes len: "length bytes = 450560"
  defines "img \<equiv> l_image (snd (load (ram_read bytes) ff vs stack blank_image))"
  shows "fst (save codec_ops ws img) = Returns True"
    and "errors (snd (save codec_ops ws img)) = []"
    and "contiguous_from 0 (writes (snd (save codec_ops ws img)))"
    and "concat (map w_data (writes (snd (save codec_ops ws img)))) = bytes"
proof -
  let ?cs = "generated img"
  let ?tr = "\<lambda>t. take 5632 (drop (t * 5632) bytes)"
  note li = loaded_image [OF len, where ff = ff and vs = vs and stack = stack, folded img_def]
  have ext: "extracted codec_ops img t 0 = map (sector_payload (?tr t)) (load_sectors 6)"
    if "t < 80" for t
    using loaded_track [OF len that, where ff = ff and vs = vs and stack = stack, folded img_def] .
  have heads: "\<forall>x \<in> set (map g_head ?cs). x = 0"
  proof
    fix x assume "x \<in> set (map g_head ?cs)"
    then obtain k where "k < 80" "x = g_head (?cs ! k)"
      using li(1) by (auto simp: in_set_conv_nth)
    with li(2) [of k] show "x = 0" by (simp add: loaded_from_def)
  qed
  have ne: "map g_head ?cs \<noteq> []" using li(1) by auto
  have "fst (snd (get_geometry_mfm_pc codec_ops img 2000)) = 1"
    using fold_max_zeros [OF heads, of "- 1"] ne
    by (simp add: codec_ops_def probe_geometry_def)
  then have sp: "save_positions codec_ops img = positions 80 1 6"
    by (simp add: save_positions_eq)
  have trlen: "length (?tr t) = 5632" if "t < 80" for t
    using len that by simp
  have ok: "size_ok codec_ops img (t, h, s)" if "t < 80" "h < 1" "s < 6" for t h s
  proof -
    from that have h: "h = 0" by simp
    have "length (extracted codec_ops img t 0) = 6"
      by (simp add: ext [OF that(1)] load_sectors_6)
    moreover have "map length (extracted codec_ops img t 0) = esq_sizes"
      unfolding ext [OF that(1)] sector_payload_slices
      using trlen [OF that(1)] by (simp add: esq_sizes_def)
    then have "length (extracted codec_ops img t 0 ! s) = esq_sizes ! s"
      using that(3) calculation by (metis nth_map)
    ultimately show ?thesis
      using that(3) by (simp add: size_ok_def h esq_sizes_expected)
  qed
  have all: "list_all (size_ok codec_ops img) (save_positions codec_ops img)"
    unfolding sp by (auto simp: list_all_iff set_positions intro: ok)
  note sv = save_writes_all_ok [OF all, of ws]
  show "fst (save codec_ops ws img) = Returns True" by (simp add: sv)
  show "errors (snd (save codec_ops ws img)) = []" by (simp add: sv)
  show "contiguous_from 0 (writes (snd (save codec_ops ws img)))"
    by (simp add: sv contiguous_writes_from)
  have "concat (map w_data (writes (snd (save codec_ops ws img)))) =
      concat (map (\<lambda>(t, h, s). extracted codec_ops img t h ! s) (positions 80 1 6))"
    by (simp add: sv map_data_writes_from sp)
  also have "\<dots> = concat (map (\<lambda>t. concat (map (\<lambda>s. extracted codec_ops img t 0 ! s) [0..<6]))
      [0..<80])"
    by (simp only: positions_one_head concat_map_nested map_map comp_def prod.case)
  also have "\<dots> = concat (map ?tr [0..<80])"
  proof -
    have "concat (map (\<lambda>s. extracted codec_ops img t 0 ! s) [0..<6]) = ?tr t"
      if "t \<in> set [0..<80]" for t
    proof -
      from that have t: "t < 80" by simp
      have six: "length (extracted codec_ops img t 0) = 6"
        by (simp add: ext [OF t] load_sectors_6)
      have "map (\<lambda>s. extracted codec_ops img t 0 ! s) [0..<6] = extracted codec_ops img t 0"
        using map_nth [of "extracted codec_ops img t 0"] by (simp only: six)
      then have "concat (map (\<lambda>s. extracted codec_ops img t 0 ! s) [0..<6]) =
          concat (map (sector_payload (?tr t)) (load_sectors 6))"
        by (simp only: ext [OF t])
      also have "\<dots> = take 5632 (?tr t)" by (rule concat_sector_payloads)
      finally show ?thesis by simp
    qed
    then show ?thesis by (simp only: cong: map_cong)
  qed
  also have "\<dots> = take (80 * 5632) bytes" by (rule concat_chunks)
  also have "\<dots> = bytes" using len by simp
  finally show "concat (map w_data (writes (snd (save codec_ops ws img)))) = bytes" .
qed

subsection \<open>The decoder of the specification fills every sector slot\<close>

text \<open>
  The decoder returns one entry for each of the six sector slots, whatever the cells; on an
  image with no track at all every entry is empty, and \<^verbatim>\<open>save\<close> stops at track 0,
  sector 0 with an error and no write.
\<close>

lemma length_decode_from: "length (decode_from sizes cells res) = length res"
proof (induction sizes cells res rule: decode_from.induct)
  case (1 sizes cells res)
  show ?case
  proof (cases "sync_scan 0 cells")
    case None
    then show ?thesis by (subst decode_from.simps) simp
  next
    case (Some k)
    obtain found rest where ds: "decode_sector sizes (drop (k + 16) cells) = (found, rest)"
      by (cases "decode_sector sizes (drop (k + 16) cells)")
    let ?res = "case found of None \<Rightarrow> res | Some (i, d) \<Rightarrow> res[i := d]"
    have l: "length ?res = length res" by (auto split: option.splits)
    show ?thesis
    proof (cases "length rest < length cells")
      case True
      from "1.IH" [OF Some ds [symmetric] refl True] l
      show ?thesis
        by (subst decode_from.simps) (simp add: Some ds True Let_def)
    next
      case False
      with l show ?thesis
        by (subst decode_from.simps) (simp add: Some ds Let_def)
    qed
  qed
qed

lemma codec_slots: "length (extracted codec_ops img t h) = 6"
  by (simp add: extracted_def codec_ops_def decode_def length_decode_from)

lemma unformatted_track: "extracted codec_ops blank_image t h = replicate 6 []"
proof -
  have "track_cells blank_image (int t) (int h) = []"
    by (simp add: track_cells_def blank_image_def)
  moreover have "decode [] 6 esq_sizes = replicate 6 unresolved"
    by (simp add: decode_def decode_from.simps)
  ultimately show ?thesis
    by (simp add: extracted_def codec_ops_def unresolved_def)
qed

lemma positions_first: "positions 80 1 6 = (0, 0, 0) # tl (positions 80 1 6)"
  by (simp add: positions_def upt_rec [of 0 80] upt_rec [of 0 6])

lemma save_unformatted:
  "save codec_ops ws blank_image =
     (Returns False, \<lparr>file_offset = 0, writes = [], errors = [(0, 0, 0)]\<rparr>)"
proof -
  have "fst (snd (get_geometry_mfm_pc codec_ops blank_image 2000)) = 0"
    by (simp add: codec_ops_def probe_geometry_def blank_image_def)
  then have sp: "save_positions codec_ops blank_image = positions 80 1 6"
    by (simp add: save_positions_eq)
  have bad: "\<not> size_ok codec_ops blank_image (0, 0, 0)"
    by (simp add: size_ok_def unformatted_track sector_expected_size_def)
  have tw: "takeWhile (size_ok codec_ops blank_image) (positions 80 1 6) = []"
    by (subst positions_first) (simp add: bad)
  have dw: "dropWhile (size_ok codec_ops blank_image) (positions 80 1 6) =
      (0, 0, 0) # tl (positions 80 1 6)"
    by (subst positions_first) (simp add: bad)
  show ?thesis
    unfolding save_outcome sp tw dw
    by (simp add: unformatted_track Let_def)
qed

section \<open>The claims\<close>

text \<open>
  Claim C1. When the length query succeeds, \<^verbatim>\<open>find_size\<close> returns the geometry
  \<open>(80, 1, 6)\<close> if and only if the container is exactly \<open>80 * 1 * 5632 = 450560\<close> bytes
  long; for any other length, and when the length query fails, it returns \<open>(0, 0, 0)\<close>.
\<close>

theorem find_size_recognition:
  "(\<not> failed (fst (io_length io)) \<longrightarrow>
      (find_size io = (80, 1, 6)) = (unat (snd (io_length io)) = 80 * 1 * 5632)) \<and>
   (failed (fst (io_length io)) \<or> unat (snd (io_length io)) \<noteq> 80 * 1 * 5632 \<longrightarrow>
      find_size io = (0, 0, 0))"
  by (cases "io_length io") (simp add: find_size_def size_eq_450560)

theorem find_size_recognition_witness:
  "find_size (ram_read (replicate 450560 0)) = (80, 1, 6) \<and>
   find_size (ram_read (replicate 450559 0)) = (0, 0, 0) \<and>
   find_size dead_io = (80, 1, 6) \<and>
   find_size \<lparr>io_length = (5, 450560), io_read_at = (\<lambda>off n. (5, []))\<rparr> = (0, 0, 0)"
  using find_size_recognition [of "ram_read (replicate 450560 0)"]
    find_size_recognition [of "ram_read (replicate 450559 0)"]
    find_size_recognition [of dead_io]
    find_size_recognition [of "\<lparr>io_length = (5, 450560), io_read_at = (\<lambda>off n. (5, []))\<rparr>"]
  by (simp add: ram_read_def failed_def dead_io_def)

text \<open>
  Claim C2. For six sectors with the ids 0 to 5 and payloads of 1024, 1024, 1024, 1024, 1024
  and 512 bytes, whatever the payload bytes, the track and the head: the track image the
  encoder produces from \<^verbatim>\<open>esq_6_desc\<close> has 109376 cells, and the decoder recovers from it
  every sector with its track, head, sector id, size code and payload, both checksums found
  right. And for every container of 450560 bytes, \<^verbatim>\<open>save\<close> applied to the image that
  \<^verbatim>\<open>load\<close> builds from it returns true, reports no error, and writes, sector after
  sector from offset 0, exactly the bytes of the container.
\<close>

theorem round_trip:
  fixes bytes :: "byte list" and ff :: "32 word" and vs :: "32 word list" and stack :: "byte list"
  shows
  "(map sp_sector_id sectors = [0, 1, 2, 3, 4, 5] \<and>
    map (\<lambda>sp. length (sp_data sp)) sectors = [1024, 1024, 1024, 1024, 1024, 512] \<longrightarrow>
      length (encode esq_6_desc sectors t h) = 109376 \<and>
      decode (encode esq_6_desc sectors t h) 6 [1024, 1024, 1024, 1024, 1024, 512] =
        map (\<lambda>sp. \<lparr>d_status = Recovered, d_track = of_int t, d_head = of_int h,
                      d_sector_id = of_int (sp_sector_id sp), d_size_code = size_code (sp_size sp),
                      d_data = sp_data sp\<rparr>) sectors) \<and>
   (length bytes = 450560 \<longrightarrow>
      fst (save codec_ops ws (l_image (snd (load (ram_read bytes) ff vs stack blank_image)))) =
        Returns True \<and>
      errors (snd (save codec_ops ws (l_image (snd (load (ram_read bytes) ff vs stack blank_image))))) = [] \<and>
      contiguous_from 0
        (writes (snd (save codec_ops ws (l_image (snd (load (ram_read bytes) ff vs stack blank_image)))))) \<and>
      concat (map w_data
        (writes (snd (save codec_ops ws (l_image (snd (load (ram_read bytes) ff vs stack blank_image))))))) =
        bytes)"
proof (intro conjI impI)
  assume a: "map sp_sector_id sectors = [0, 1, 2, 3, 4, 5] \<and>
    map (\<lambda>sp. length (sp_data sp)) sectors = [1024, 1024, 1024, 1024, 1024, 512]"
  then have ids: "map sp_sector_id sectors = [0, 1, 2, 3, 4, 5]"
    and lens: "map (\<lambda>sp. length (sp_data sp)) sectors = esq_sizes"
    by (simp_all add: esq_sizes_def)
  show "length (encode esq_6_desc sectors t h) = 109376"
    by (rule length_encode_esq [OF lens])
  have "recovered t h = (\<lambda>sp. \<lparr>d_status = Recovered, d_track = of_int t, d_head = of_int h,
                      d_sector_id = of_int (sp_sector_id sp), d_size_code = size_code (sp_size sp),
                      d_data = sp_data sp\<rparr>)"
    by (rule ext) (simp add: recovered_def)
  with track_round_trip [OF ids lens, of t h]
  show "decode (encode esq_6_desc sectors t h) 6 [1024, 1024, 1024, 1024, 1024, 512] =
        map (\<lambda>sp. \<lparr>d_status = Recovered, d_track = of_int t, d_head = of_int h,
                      d_sector_id = of_int (sp_sector_id sp), d_size_code = size_code (sp_size sp),
                      d_data = sp_data sp\<rparr>) sectors"
    by (simp add: esq_sizes_def)
next
  assume len: "length bytes = 450560"
  note rt = container_round_trip [OF len, where ff = ff and vs = vs and stack = stack and ws = ws]
  show "fst (save codec_ops ws (l_image (snd (load (ram_read bytes) ff vs stack blank_image)))) =
        Returns True"
    by (rule rt(1))
  show "errors (snd (save codec_ops ws (l_image (snd (load (ram_read bytes) ff vs stack blank_image))))) = []"
    by (rule rt(2))
  show "contiguous_from 0
        (writes (snd (save codec_ops ws (l_image (snd (load (ram_read bytes) ff vs stack blank_image))))))"
    by (rule rt(3))
  show "concat (map w_data
        (writes (snd (save codec_ops ws (l_image (snd (load (ram_read bytes) ff vs stack blank_image))))))) =
        bytes"
    by (rule rt(4))
qed

theorem round_trip_witness:
  "decode (encode esq_6_desc zero_sectors 0 0) 6 [1024, 1024, 1024, 1024, 1024, 512] =
     map (\<lambda>sp. \<lparr>d_status = Recovered, d_track = 0, d_head = 0,
                   d_sector_id = of_int (sp_sector_id sp), d_size_code = size_code (sp_size sp),
                   d_data = sp_data sp\<rparr>) zero_sectors \<and>
   length (encode esq_6_desc zero_sectors 0 0) = 109376 \<and>
   fst (save codec_ops [] (l_image (snd (load (ram_read (replicate 450560 0)) 0 [] [] blank_image)))) =
     Returns True \<and>
   concat (map w_data
     (writes (snd (save codec_ops [] (l_image (snd (load (ram_read (replicate 450560 0)) 0 [] [] blank_image))))))) =
     replicate 450560 0"
proof -
  have ids: "map sp_sector_id zero_sectors = [0, 1, 2, 3, 4, 5]"
    by (simp add: zero_sectors_def)
  have lens: "map (\<lambda>sp. length (sp_data sp)) zero_sectors = [1024, 1024, 1024, 1024, 1024, 512]"
    by (simp add: zero_sectors_def)
  have len: "length (replicate 450560 (0::byte)) = 450560" by simp
  from round_trip [of zero_sectors 0 0 "replicate 450560 0" "[]" 0 "[]" "[]"] ids lens len
  show ?thesis by simp
qed

text \<open>
  Claim C3, as amended. \<^verbatim>\<open>load\<close> has no failing path: it returns true for every
  input, and every track it generates is given six sectors whose sizes are fixed by position
  (1024 bytes for positions 0 to 4, 512 bytes for position 5) and whose ids are 0 to 5,
  whatever \<^verbatim>\<open>read_at\<close> delivered. The claim as stated fails on a reader that reports
  450560 bytes and then delivers none: all 80 reads of 5632 bytes come back with
  \<^verbatim>\<open>actual = 0\<close>, all 80 tracks are generated with sectors of 1024 and 512 bytes, and
  \<^verbatim>\<open>load\<close> returns true.
\<close>

theorem load_fixed_sector_sizes:
  "fst (load io ff vs stack img) = True \<and>
   (\<exists>cs. generated (l_image (snd (load io ff vs stack img))) = generated img @ cs \<and>
      list_all (\<lambda>c. map size_s (g_sectors c) = [1024, 1024, 1024, 1024, 1024, 512] \<and>
                     map sector_id (g_sectors c) = [0, 1, 2, 3, 4, 5]) cs)"
proof -
  obtain tc hc sc where fs: "find_size io = (tc, hc, sc)" by (cases "find_size io")
  from load_char(4) [OF fs, of ff vs stack img]
  obtain cs where g: "generated (l_image (snd (load io ff vs stack img))) = generated img @ cs"
    and l: "list_all2 (loaded_from io hc (load_sectors sc) sc) (track_heads (nat tc) (nat hc)) cs"
    by blast
  have "list_all (\<lambda>c. map size_s (g_sectors c) = [1024, 1024, 1024, 1024, 1024, 512] \<and>
                     map sector_id (g_sectors c) = [0, 1, 2, 3, 4, 5]) cs"
  proof (cases "find_size io = (80, 1, 6)")
    case True
    with fs have sc: "sc = 6" by simp
    have "map size_s (g_sectors c) = [1024, 1024, 1024, 1024, 1024, 512] \<and>
          map sector_id (g_sectors c) = [0, 1, 2, 3, 4, 5]"
      if "loaded_from io hc (load_sectors sc) sc p c" for p c
    proof -
      from that have "g_sectors c = load_sectors 6"
        by (cases p) (simp add: loaded_from_def sc)
      then show ?thesis by (simp add: load_sectors_6)
    qed
    with l show ?thesis by (rule list_all2_right)
  next
    case False
    with find_size_cases [of io] fs have "tc = 0" by auto
    with l show ?thesis by simp
  qed
  with g load_char(1) [OF fs] show ?thesis by blast
qed

theorem load_short_read_counterexample:
  "fst (load dead_io 0 [] (replicate 5632 0) blank_image) = True \<and>
   length (reads (snd (load dead_io 0 [] (replicate 5632 0) blank_image))) = 80 \<and>
   list_all (\<lambda>r. r_length r = 5632 \<and> r_actual r = 0)
     (reads (snd (load dead_io 0 [] (replicate 5632 0) blank_image))) \<and>
   length (generated (l_image (snd (load dead_io 0 [] (replicate 5632 0) blank_image)))) = 80 \<and>
   list_all (\<lambda>c. map size_s (g_sectors c) = [1024, 1024, 1024, 1024, 1024, 512])
     (generated (l_image (snd (load dead_io 0 [] (replicate 5632 0) blank_image))))"
proof -
  have "r_length (read_of dead_io 1 p) = 5632 \<and> r_actual (read_of dead_io 1 p) = 0" for p
    by (cases p) (simp add: read_of_def track_read_def dead_io_def track_size_def)
  then have rd: "fst (load dead_io 0 [] (replicate 5632 0) blank_image) = True \<and>
      length (reads (snd (load dead_io 0 [] (replicate 5632 0) blank_image))) = 80 \<and>
      list_all (\<lambda>r. r_length r = 5632 \<and> r_actual r = 0)
        (reads (snd (load dead_io 0 [] (replicate 5632 0) blank_image)))"
    using load_char(1,2) [OF find_size_dead_io, of 0 "[]" "replicate 5632 0" blank_image]
    by (simp add: list_all_iff length_track_heads)
  from load_char(4) [OF find_size_dead_io, of 0 "[]" "replicate 5632 0" blank_image]
  have l: "list_all2 (loaded_from dead_io 1 (load_sectors 6) 6) (track_heads 80 1)
      (generated (l_image (snd (load dead_io 0 [] (replicate 5632 0) blank_image))))"
    by (simp add: blank_image_def)
  have "map size_s (g_sectors c) = [1024, 1024, 1024, 1024, 1024, 512]"
    if "loaded_from dead_io 1 (load_sectors 6) 6 p c" for p c
    using that by (cases p) (simp add: loaded_from_def load_sectors_6)
  with l have "list_all (\<lambda>c. map size_s (g_sectors c) = [1024, 1024, 1024, 1024, 1024, 512])
      (generated (l_image (snd (load dead_io 0 [] (replicate 5632 0) blank_image))))"
    by (rule list_all2_right)
  moreover from l
  have "length (generated (l_image (snd (load dead_io 0 [] (replicate 5632 0) blank_image)))) = 80"
    by (auto dest: list_all2_lengthD simp: length_track_heads)
  ultimately show ?thesis using rd by simp
qed




text \<open>
  Claim C5. Whatever geometry the probe reports, \<^verbatim>\<open>save\<close> runs over 80 tracks and 6
  sectors, and over the probed number of heads with 0 replaced by 1 (so over at least one head,
  a head count being non-negative): its writes are those of an initial segment of the positions
  of that geometry in loop order, and of all \<open>80 * heads * 6\<close> of them when every sector has
  its expected size.
\<close>

theorem save_forces_geometry:
  "save_geometry (tc, hc, sc) = (80, (if hc = 0 then 1 else hc), 6) \<and>
   (0 \<le> hc \<longrightarrow> 1 \<le> fst (snd (save_geometry (tc, hc, sc)))) \<and>
   (get_geometry_mfm_pc ops img 2000 = (tc, hc, sc) \<longrightarrow>
      (\<exists>k. writes (snd (save ops vs img)) =
             writes_from ops img 0 (take k (positions 80 (nat (if hc = 0 then 1 else hc)) 6))) \<and>
      (list_all (size_ok ops img) (positions 80 (nat (if hc = 0 then 1 else hc)) 6) \<longrightarrow>
         fst (save ops vs img) = Returns True \<and>
         writes (snd (save ops vs img)) =
           writes_from ops img 0 (positions 80 (nat (if hc = 0 then 1 else hc)) 6))) \<and>
   set (positions 80 n 6) = {(t, h, s). t < 80 \<and> h < n \<and> s < 6} \<and>
   length (positions 80 n 6) = 80 * n * 6"
proof -
  have geo: "save_geometry (tc, hc, sc) = (80, (if hc = 0 then 1 else hc), 6)"
    by (rule save_geometry_eq)
  have pos: "0 \<le> hc \<longrightarrow> 1 \<le> fst (snd (save_geometry (tc, hc, sc)))"
    by (simp add: geo)
  have run: "(\<exists>k. writes (snd (save ops vs img)) =
             writes_from ops img 0 (take k (positions 80 (nat (if hc = 0 then 1 else hc)) 6))) \<and>
      (list_all (size_ok ops img) (positions 80 (nat (if hc = 0 then 1 else hc)) 6) \<longrightarrow>
         fst (save ops vs img) = Returns True \<and>
         writes (snd (save ops vs img)) =
           writes_from ops img 0 (positions 80 (nat (if hc = 0 then 1 else hc)) 6))"
    if probe: "get_geometry_mfm_pc ops img 2000 = (tc, hc, sc)"
  proof -
    have sp: "save_positions ops img = positions 80 (nat (if hc = 0 then 1 else hc)) 6"
      by (simp add: save_positions_eq probe)
    have "writes (snd (save ops vs img)) =
        writes_from ops img 0 (take (length (takeWhile (size_ok ops img) (save_positions ops img)))
          (save_positions ops img))"
      by (simp add: save_writes_prefix takeWhile_eq_take [symmetric])
    then have "\<exists>k. writes (snd (save ops vs img)) =
             writes_from ops img 0 (take k (positions 80 (nat (if hc = 0 then 1 else hc)) 6))"
      unfolding sp by blast
    moreover have "fst (save ops vs img) = Returns True \<and>
         writes (snd (save ops vs img)) =
           writes_from ops img 0 (positions 80 (nat (if hc = 0 then 1 else hc)) 6)"
      if "list_all (size_ok ops img) (positions 80 (nat (if hc = 0 then 1 else hc)) 6)"
      using that save_writes_all_ok [of ops img vs] by (simp add: sp)
    ultimately show ?thesis by blast
  qed
  show ?thesis
    using geo pos run set_positions [of 80 n 6] length_positions [of 80 n 6] by blast
qed

theorem save_forces_geometry_witness:
  "get_geometry_mfm_pc blank_ops () 2000 = (0, 0, 0) \<and>
   save_geometry (0, 0, 0) = (80, 1, 6) \<and>
   get_geometry_mfm_pc filled_ops () 2000 = (80, 2, 6) \<and>
   list_all (size_ok filled_ops ()) (positions 80 2 6) \<and>
   fst (save filled_ops [] ()) = Returns True \<and>
   length (writes (snd (save filled_ops [] ()))) = 960"
proof -
  have ok: "list_all (size_ok filled_ops ()) (positions 80 2 6)"
    using filled_ops_ok by (simp add: save_positions_eq filled_ops_def)
  have p: "get_geometry_mfm_pc filled_ops () 2000 = (80, 2, 6)"
    by (simp add: filled_ops_def)
  show ?thesis
    using save_forces_geometry [of 0 0 0 blank_ops "()" "[]" 0]
      save_forces_geometry [of 80 2 6 filled_ops "()" "[]" 2] ok p
    by (simp add: blank_ops_def length_writes_from)
qed

text \<open>
  Claim C6. \<^verbatim>\<open>load\<close> reads 5632 bytes for each (track, head) at offset
  \<open>(track * head_count + head) * 5632\<close>, in loop order, and generates the track from the
  buffer those bytes were read into, cut into five sectors of 1024 bytes and one of 512 with the
  ids 0 to 5 in ascending order. In one call of \<^verbatim>\<open>save\<close> every write starts where the
  sizes of the writes before it add up to, so the offsets are strictly ascending, every write
  is a whole sector of 1024 or 512 bytes, and the six sectors of a track take 5632 bytes.
\<close>

theorem container_offsets:
  "(find_size io = (tc, hc, sc) \<longrightarrow>
      reads (snd (load io ff vs stack img)) = map (read_of io hc) (track_heads (nat tc) (nat hc)) \<and>
      (\<exists>cs. generated (l_image (snd (load io ff vs stack img))) = generated img @ cs \<and>
            list_all2 (loaded_from io hc (load_sectors sc) sc) (track_heads (nat tc) (nat hc)) cs)) \<and>
   r_offset (read_of io hc (t, h)) = (int t * hc + int h) * 5632 \<and>
   r_length (read_of io hc (t, h)) = 5632 \<and>
   map (sector_payload buf) (load_sectors 6) =
     [take 1024 buf, take 1024 (drop 1024 buf), take 1024 (drop 2048 buf),
      take 1024 (drop 3072 buf), take 1024 (drop 4096 buf), take 512 (drop 5120 buf)] \<and>
   map sector_id (load_sectors 6) = [0, 1, 2, 3, 4, 5] \<and>
   contiguous_from 0 (writes (snd (save ops ws im))) \<and>
   (\<forall>k < length (writes (snd (save ops ws im))).
      w_offset (writes (snd (save ops ws im)) ! k) =
        sum_list (map w_length (take k (writes (snd (save ops ws im)))))) \<and>
   sorted_wrt (<) (map w_offset (writes (snd (save ops ws im)))) \<and>
   list_all (\<lambda>w. length (w_data w) = w_length w \<and> (w_length w = 1024 \<or> w_length w = 512))
     (writes (snd (save ops ws im))) \<and>
   sum_list (map sector_expected_size [0..<6]) = 5632"
proof -
  have ld: "find_size io = (tc, hc, sc) \<longrightarrow>
      reads (snd (load io ff vs stack img)) = map (read_of io hc) (track_heads (nat tc) (nat hc)) \<and>
      (\<exists>cs. generated (l_image (snd (load io ff vs stack img))) = generated img @ cs \<and>
            list_all2 (loaded_from io hc (load_sectors sc) sc) (track_heads (nat tc) (nat hc)) cs)"
    using load_char(2,4) [of io tc hc sc ff vs stack img] by blast
  have ro: "r_offset (read_of io hc (t, h)) = (int t * hc + int h) * 5632 \<and>
      r_length (read_of io hc (t, h)) = 5632"
    by (simp add: read_of_def track_size_def)
  have ids: "map sector_id (load_sectors 6) = [0, 1, 2, 3, 4, 5]"
    by (simp add: load_sectors_6)
  have cont: "contiguous_from 0 (writes (snd (save ops ws im)))"
    unfolding save_writes_prefix by (rule contiguous_writes_from)
  have nth: "\<forall>k < length (writes (snd (save ops ws im))).
      w_offset (writes (snd (save ops ws im)) ! k) =
        sum_list (map w_length (take k (writes (snd (save ops ws im)))))"
    using contiguous_nth [OF cont] by simp
  have asc: "sorted_wrt (<) (map w_offset (writes (snd (save ops ws im))))"
    unfolding save_writes_prefix by (rule ascending_writes_from)
  have rec: "sum_list (map sector_expected_size [0..<6]) = 5632"
    by (simp add: sector_expected_size_def upt_rec)
  show ?thesis
    using ld ro sector_payload_slices [of buf] ids cont nth asc save_writes_lengths [of ops ws im] rec
    by blast
qed

theorem container_offsets_witness:
  "find_size (ram_read (replicate 450560 0)) = (80, 1, 6) \<and>
   map r_offset (reads (snd (load (ram_read (replicate 450560 0)) 0 [] (replicate 5632 0) blank_image))) =
     map (\<lambda>t. int t * 5632) [0..<80] \<and>
   7 < length (writes (snd (save filled_ops [] ()))) \<and>
   w_offset (writes (snd (save filled_ops [] ())) ! 7) =
     sum_list (map w_length (take 7 (writes (snd (save filled_ops [] ())))))"
proof -
  have fs: "find_size (ram_read (replicate 450560 0)) = (80, 1, 6)"
    by (simp add: find_size_def ram_read_def failed_def)
  have len: "7 < length (writes (snd (save filled_ops [] ())))"
    using save_writes_all_ok [OF filled_ops_ok, of "[]"]
    by (simp add: length_writes_from save_positions_eq filled_ops_def length_positions)
  note inst = container_offsets [of "ram_read (replicate 450560 0)" 80 1 6 0 "[]" "replicate 5632 0"
        blank_image 0 0 "[]" filled_ops "[]" "()"]
  from inst fs have rd: "reads (snd (load (ram_read (replicate 450560 0)) 0 [] (replicate 5632 0) blank_image)) =
      map (read_of (ram_read (replicate 450560 0)) 1) (track_heads (nat 80) (nat 1))"
    by blast
  from inst have nth: "\<forall>k < length (writes (snd (save filled_ops [] ()))).
      w_offset (writes (snd (save filled_ops [] ())) ! k) =
        sum_list (map w_length (take k (writes (snd (save filled_ops [] ())))))"
    by blast
  have "map r_offset (map (read_of (ram_read (replicate 450560 0)) 1) (track_heads (nat 80) (nat 1))) =
      map (\<lambda>t. int t * 5632) [0..<80]"
    by (simp add: track_heads_1 read_of_def track_size_def)
  with rd fs len nth show ?thesis by simp
qed

text \<open>
  Claim C7. \<^verbatim>\<open>esq_6_desc\<close> has exactly one \<^verbatim>\<open>SECTOR_LOOP_START\<close> and one
  \<^verbatim>\<open>SECTOR_LOOP_END\<close>, the end after the start; the loop runs over the sector indices 0
  to 5, six of them, as many as the sector count of the recognised geometry; the loop body holds
  two checksum regions, each closed by the \<^verbatim>\<open>CRC_END\<close> of its id with the \<^verbatim>\<open>CRC\<close> of
  that id next: region 1 around the sync mark, the 0xfe mark and the track, head, sector and
  size fields, region 2 around the sync mark, the 0xfb mark and the sector data; nothing outside
  the loop opens a region; and the table ends with its only \<^verbatim>\<open>END\<close>.
\<close>

theorem descriptor_well_formed:
  "count_type SECTOR_LOOP_START esq_6_desc = 1 \<and>
   count_type SECTOR_LOOP_END esq_6_desc = 1 \<and>
   count_type SECTOR_LOOP_END (before_type SECTOR_LOOP_START esq_6_desc) = 0 \<and>
   loop_indices esq_6_desc = [0, 1, 2, 3, 4, 5] \<and>
   int (length (loop_indices esq_6_desc)) = snd (snd (find_size (ram_read (replicate 450560 0)))) \<and>
   crc_scan None (loop_body esq_6_desc) =
     Some [(1, [D3 RAW 0x4489 3, D3 MFM 0xfe 1, D1 TRACK_ID, D1 HEAD_ID, D1 SECTOR_ID, D1 SIZE_ID]),
           (2, [D3 RAW 0x4489 3, D3 MFM 0xfb 1, D2 SECTOR_DATA (- 1)])] \<and>
   crc_scan None (before_type SECTOR_LOOP_START esq_6_desc) = Some [] \<and>
   crc_scan None (after_type SECTOR_LOOP_END esq_6_desc) = Some [] \<and>
   count_type END esq_6_desc = 1 \<and> last esq_6_desc = D1 END"
  by (simp add: esq_6_desc_def count_type_def before_type_def after_type_def loop_body_def
      loop_indices_def D1_def D2_def D3_def upto.simps find_size_def ram_read_def failed_def)

text \<open>
  Claim C8. In \<^verbatim>\<open>esq_6_desc\<close> the instructions that carry a sync value (0x5224 or
  0x4489) are exactly the \<^verbatim>\<open>RAW\<close> instructions: no \<^verbatim>\<open>MFM\<close> instruction, and no
  other instruction, carries one, and every \<^verbatim>\<open>MFM\<close> instruction carries a byte.
\<close>

theorem sync_marks_raw_only:
  "filter (\<lambda>e. type_e e = RAW) esq_6_desc = filter (\<lambda>e. p1 e \<in> set sync_values) esq_6_desc \<and>
   map p1 (filter (\<lambda>e. type_e e = RAW) esq_6_desc) = [0x5224, 0x4489, 0x4489] \<and>
   filter (\<lambda>e. type_e e = MFM \<and> p1 e \<in> set sync_values) esq_6_desc = [] \<and>
   filter (\<lambda>e. type_e e \<noteq> RAW \<and> p1 e \<in> set sync_values) esq_6_desc = [] \<and>
   list_all (\<lambda>e. 0 \<le> p1 e \<and> p1 e < 256) (filter (\<lambda>e. type_e e = MFM) esq_6_desc)"
  by (simp add: esq_6_desc_def sync_values_def D1_def D2_def D3_def)

text \<open>
  Claim C9. \<^verbatim>\<open>load\<close> returns true for every input and always sets the variant to DSDD;
  when \<^verbatim>\<open>find_size\<close> does not recognise the container it reads nothing and generates no
  track, and still returns true.
\<close>

theorem load_always_succeeds:
  "fst (load io ff vs stack img) = True \<and>
   variant (l_image (snd (load io ff vs stack img))) = Some DSDD \<and>
   (find_size io = (0, 0, 0) \<longrightarrow>
      generated (l_image (snd (load io ff vs stack img))) = generated img \<and>
      reads (snd (load io ff vs stack img)) = [])"
proof -
  obtain tc hc sc where fs: "find_size io = (tc, hc, sc)" by (cases "find_size io")
  show ?thesis
    using load_char [OF fs, of ff vs stack img] fs by auto
qed

theorem load_always_succeeds_witness:
  "find_size (ram_read []) = (0, 0, 0) \<and>
   fst (load (ram_read []) 0 [] [] blank_image) = True \<and>
   variant (l_image (snd (load (ram_read []) 0 [] [] blank_image))) = Some DSDD \<and>
   generated (l_image (snd (load (ram_read []) 0 [] [] blank_image))) = [] \<and>
   reads (snd (load (ram_read []) 0 [] [] blank_image)) = []"
proof -
  have "find_size (ram_read []) = (0, 0, 0)"
    by (simp add: find_size_def ram_read_def)
  then show ?thesis
    using load_always_succeeds [of "ram_read []" 0 "[]" "[]" blank_image]
    by (simp add: blank_image_def)
qed

text \<open>
  Claim C10. \<^verbatim>\<open>identify\<close> returns 50 exactly when \<^verbatim>\<open>find_size\<close> recognises the
  container (a non-zero track count: the length query succeeds and the length is 450560), and 0
  otherwise; there is no other return value.
\<close>

theorem identify_score:
  "identify io form_factor variants =
     (if \<not> failed (fst (io_length io)) \<and> unat (snd (io_length io)) = 450560 then 50 else 0) \<and>
   (identify io form_factor variants = 50) = (find_size io = (80, 1, 6)) \<and>
   (identify io form_factor variants = 50) = (fst (find_size io) \<noteq> 0) \<and>
   (identify io form_factor variants = 50 \<or> identify io form_factor variants = 0)"
  by (cases "io_length io") (simp add: identify_def find_size_def size_eq_450560)

end
